theory Spec2Isabelle
  imports Main "HOL-Library.Multiset"
begin

text \<open>
  The incremental indexing engine of injestdb: the schema validation and schema diff of
  \<^verbatim>\<open>lib/schemas.js\<close>, and the indexer (history scan, update applier, indexing
  pass, rebuild reset, adding, loading and removing an archive, archive watch). The
  first sections embed the source, function by
  function and under the names of the source; then come the notions the claims are
  stated with and a worked scenario; the proofs follow.
\<close>

section \<open>JavaScript values\<close>

text \<open>
  Schemas, table definitions and the records parsed from archive files are JavaScript
  values. Numbers are the integers. An object, an array and a function each have an
  identity, their first argument: two values are the same object exactly when they have
  the same identity, whatever they hold at the time. The list of an object is the list of
  its own enumerable properties in the order \<^verbatim>\<open>Object.keys\<close> gives them (the
  order of insertion, for keys that are no array indices); an array has its elements
  and, being an object too, can carry named properties (\<^verbatim>\<open>table.index = ...\<close> on
  a table that happens to be an array).
\<close>

datatype jsval =
    JUndefined
  | JNull
  | JBool bool
  | JNum int
  | JStr string
  | JArr nat "jsval list" "(string \<times> jsval) list"
  | JObj nat "(string \<times> jsval) list"
  | JFun nat "(string \<times> jsval) list"

text \<open>
  The properties a value has besides its own enumerable ones: those it inherits along
  its prototype chain (\<^verbatim>\<open>toString\<close>, \<^verbatim>\<open>constructor\<close>, ... for a plain
  object), and own properties that are not enumerable. They depend on the realm and on
  how the object was made, and are a parameter of every function that reads a property.
  An own enumerable property shadows them.
\<close>

type_synonym protos = "jsval \<Rightarrow> string \<Rightarrow> jsval option"

datatype exn =
    SchemaError
  | TypeError
  | SyntaxError
  | ArchiveError
  | ValidationError
  | StoreError

definition andThen :: "exn + 'a \<Rightarrow> ('a \<Rightarrow> exn + 'b) \<Rightarrow> exn + 'b" where
  "andThen r f = (case r of Inl e \<Rightarrow> Inl e | Inr x \<Rightarrow> f x)"

fun truthy :: "jsval \<Rightarrow> bool" where
  "truthy JUndefined = False"
| "truthy JNull = False"
| "truthy (JBool b) = b"
| "truthy (JNum n) = (n \<noteq> 0)"
| "truthy (JStr s) = (s \<noteq> [])"
| "truthy (JArr i es ps) = True"
| "truthy (JObj i ps) = True"
| "truthy (JFun i ps) = True"

fun typeof :: "jsval \<Rightarrow> string" where
  "typeof JUndefined = ''undefined''"
| "typeof JNull = ''object''"
| "typeof (JBool b) = ''boolean''"
| "typeof (JNum n) = ''number''"
| "typeof (JStr s) = ''string''"
| "typeof (JArr i es ps) = ''object''"
| "typeof (JObj i ps) = ''object''"
| "typeof (JFun i ps) = ''function''"

text \<open>Decimal numerals, for the index keys of arrays and strings.\<close>

fun string_of_nat :: "nat \<Rightarrow> string" where
  "string_of_nat n =
     (if n < 10 then [''0123456789'' ! n]
      else string_of_nat (n div 10) @ [''0123456789'' ! (n mod 10)])"

declare string_of_nat.simps [simp del]

definition index_keys :: "'a list \<Rightarrow> string list" where
  "index_keys xs = map string_of_nat [0 ..< length xs]"

definition lookup :: "(string \<times> jsval) list \<Rightarrow> string \<Rightarrow> jsval" where
  "lookup ps k = (case map_of ps k of None \<Rightarrow> JUndefined | Some v \<Rightarrow> v)"

text \<open>
  The own properties of a value: the length and the characters of a string, the length,
  the elements and the named properties of an array, the properties of an object or a
  function.
\<close>

fun own :: "jsval \<Rightarrow> string \<Rightarrow> jsval option" where
  "own (JStr s) k =
     (if k = ''length'' then Some (JNum (int (length s)))
      else map_of (zip (index_keys s) (map (\<lambda>c. JStr [c]) s)) k)"
| "own (JArr i es ps) k =
     (if k = ''length'' then Some (JNum (int (length es)))
      else map_of (zip (index_keys es) es @ ps) k)"
| "own (JObj i ps) k = map_of ps k"
| "own (JFun i ps) k = map_of ps k"
| "own v k = None"

text \<open>
  \<^verbatim>\<open>v[k]\<close> and \<^verbatim>\<open>v.k\<close>: reading a property of \<^verbatim>\<open>null\<close> or
  \<^verbatim>\<open>undefined\<close> raises a TypeError; otherwise the own property is read, else the
  inherited one, else the value is \<^verbatim>\<open>undefined\<close>.
\<close>

definition get_prop :: "protos \<Rightarrow> jsval \<Rightarrow> string \<Rightarrow> exn + jsval" where
  "get_prop pr v k =
     (if v = JUndefined \<or> v = JNull then Inl TypeError
      else Inr (case own v k of
                  Some x \<Rightarrow> x
                | None \<Rightarrow> (case pr v k of Some x \<Rightarrow> x | None \<Rightarrow> JUndefined)))"

text \<open>
  \<^verbatim>\<open>k in v\<close>: a TypeError unless \<^verbatim>\<open>v\<close> is an object; on an object, whether
  \<^verbatim>\<open>k\<close> is a property of its own or an inherited one.
\<close>

definition has_prop :: "protos \<Rightarrow> string \<Rightarrow> jsval \<Rightarrow> exn + bool" where
  "has_prop pr k v =
     (if typeof v = ''object'' \<and> v \<noteq> JNull \<or> typeof v = ''function''
      then Inr (own v k \<noteq> None \<or> pr v k \<noteq> None)
      else Inl TypeError)"

text \<open>\<^verbatim>\<open>Object.keys(v)\<close>: index keys first, then the named properties.\<close>

fun Object_keys :: "jsval \<Rightarrow> exn + string list" where
  "Object_keys JUndefined = Inl TypeError"
| "Object_keys JNull = Inl TypeError"
| "Object_keys (JBool b) = Inr []"
| "Object_keys (JNum n) = Inr []"
| "Object_keys (JStr s) = Inr (index_keys s)"
| "Object_keys (JArr i es ps) = Inr (index_keys es @ map fst ps)"
| "Object_keys (JObj i ps) = Inr (map fst ps)"
| "Object_keys (JFun i ps) = Inr (map fst ps)"

fun upsert :: "(string \<times> 'v) list \<Rightarrow> string \<Rightarrow> 'v \<Rightarrow> (string \<times> 'v) list" where
  "upsert [] k v = [(k, v)]"
| "upsert ((k', v') # ps) k v = (if k' = k then (k, v) # ps else (k', v') # upsert ps k v)"

text \<open>
  \<^verbatim>\<open>v.k = x\<close> for a name \<^verbatim>\<open>k\<close> that is neither an index nor
  \<^verbatim>\<open>length\<close>: the object keeps its identity and gets the property (the names
  the sources assign are \<^verbatim>\<open>index\<close>, \<^verbatim>\<open>_url\<close> and \<^verbatim>\<open>_origin\<close>;
  no prototype is taken to define a setter for them). Both source
  files are CommonJS modules without a \<^verbatim>\<open>'use strict'\<close> directive, so an
  assignment to a property of a primitive is silently dropped; on \<^verbatim>\<open>null\<close> and
  \<^verbatim>\<open>undefined\<close> it raises.
\<close>

fun set_prop :: "jsval \<Rightarrow> string \<Rightarrow> jsval \<Rightarrow> exn + jsval" where
  "set_prop JUndefined k x = Inl TypeError"
| "set_prop JNull k x = Inl TypeError"
| "set_prop (JObj i ps) k x = Inr (JObj i (upsert ps k x))"
| "set_prop (JArr i es ps) k x = Inr (JArr i es (upsert ps k x))"
| "set_prop (JFun i ps) k x = Inr (JFun i (upsert ps k x))"
| "set_prop v k x = Inr v"

text \<open>
  \<^verbatim>\<open>a === b\<close>: primitives compare by value, objects by identity.
\<close>

fun objectId :: "jsval \<Rightarrow> nat option" where
  "objectId (JArr i es ps) = Some i"
| "objectId (JObj i ps) = Some i"
| "objectId (JFun i ps) = Some i"
| "objectId v = None"

definition strict_eq :: "jsval \<Rightarrow> jsval \<Rightarrow> bool" where
  "strict_eq a b =
     (case (objectId a, objectId b) of
        (Some i, Some j) \<Rightarrow> i = j
      | (None, None) \<Rightarrow> a = b
      | _ \<Rightarrow> False)"

text \<open>
  \<^verbatim>\<open>new Set(xs)\<close>, read in iteration order: each element once, at the place of
  its first occurrence.
\<close>

fun new_Set :: "'a list \<Rightarrow> 'a list" where
  "new_Set [] = []"
| "new_Set (x # xs) = x # filter (\<lambda>y. y \<noteq> x) (new_Set xs)"

section \<open>lib/schemas.js\<close>

subsection \<open>Helpers\<close>

text \<open>
  \<^verbatim>\<open>Array.isArray(v) ? v : [v]\<close>. The array literal is a new object; its identity
  is the next unused one, which the caller supplies.
\<close>

definition arrayify :: "nat \<Rightarrow> jsval \<Rightarrow> jsval" where
  "arrayify fresh v = (case v of JArr i es ps \<Rightarrow> v | _ \<Rightarrow> JArr fresh [v] [])"

definition isArrayOfStrings :: "jsval \<Rightarrow> bool" where
  "isArrayOfStrings v =
     (case v of JArr i es ps \<Rightarrow> foldl (\<lambda>acc x. acc \<and> typeof x = ''string'') True es
      | _ \<Rightarrow> False)"

definition getTableNames :: "jsval \<Rightarrow> exn + string list" where
  "getTableNames schema =
     (if \<not> truthy schema then Inr []
      else andThen (Object_keys schema) (\<lambda>ks. Inr (filter (\<lambda>k. k \<noteq> ''version'') ks)))"

text \<open>
  Modelled from the spec: \<^verbatim>\<open>assert\<close> of \<^verbatim>\<open>lib/util\<close> is not among the
  sources. Section 7 has a configuration error raised immediately and synchronously:
  the assertion raises the given error when its condition does not hold.
\<close>

definition assert :: "bool \<Rightarrow> exn \<Rightarrow> exn + unit" where
  "assert cond err = (if cond then Inr () else Inl err)"

subsection \<open>validateAndSanitize\<close>

text \<open>
  \<^verbatim>\<open>schema.version > 0 && typeof schema.version === 'number'\<close>: the comparison
  coerces its operand, but the conjunction holds of numbers only, where no coercion
  takes place.
\<close>

definition version_ok :: "jsval \<Rightarrow> bool" where
  "version_ok v = ((case v of JNum n \<Rightarrow> 0 < n | _ \<Rightarrow> False) \<and> typeof v = ''number'')"

text \<open>
  \<^verbatim>\<open>table.index = ...\<close> changes the table object in place, and the schema that
  holds the table sees the change. A value of the model is a snapshot: the model puts
  the changed table back into the schema, under the key it was read from (an own
  property, named or an index).
\<close>

definition write_back :: "jsval \<Rightarrow> string \<Rightarrow> jsval \<Rightarrow> jsval" where
  "write_back obj k x =
     (case obj of
        JObj i ps \<Rightarrow> JObj i (upsert ps k x)
      | JFun i ps \<Rightarrow> JFun i (upsert ps k x)
      | JArr i es ps \<Rightarrow>
          if k \<in> set (index_keys es)
          then JArr i (map (\<lambda>(n, e). if string_of_nat n = k then x else e)
                        (zip [0 ..< length es] es)) ps
          else JArr i es (upsert ps k x)
      | _ \<Rightarrow> obj)"

text \<open>
  The body of the \<^verbatim>\<open>forEach\<close> over the table names. Threaded through are the
  schema and the next unused object identity. The assertion reads
  \<^verbatim>\<open>schema.index\<close>, as the source does, not \<^verbatim>\<open>table.index\<close>.
\<close>

definition sanitizeTable :: "protos \<Rightarrow> jsval \<times> nat \<Rightarrow> string \<Rightarrow> exn + jsval \<times> nat" where
  "sanitizeTable pr st tableName =
     (case st of (schema, fresh) \<Rightarrow>
     andThen (get_prop pr schema tableName) (\<lambda>table.
       if table = JNull then Inr (schema, fresh)
       else
         andThen (get_prop pr schema ''index'') (\<lambda>sindex.
         andThen (assert (\<not> truthy sindex \<or> typeof sindex = ''string'' \<or> isArrayOfStrings sindex)
                    SchemaError) (\<lambda>_.
         andThen (get_prop pr table ''index'') (\<lambda>tindex.
         andThen (set_prop table ''index'' (arrayify fresh tindex)) (\<lambda>table'.
         Inr (write_back schema tableName table', fresh + 1)))))))"

fun forEach :: "('s \<Rightarrow> 'a \<Rightarrow> exn + 's) \<Rightarrow> 'a list \<Rightarrow> 's \<Rightarrow> exn + 's" where
  "forEach f [] s = Inr s"
| "forEach f (x # xs) s = andThen (f s x) (forEach f xs)"

text \<open>
  The function returns nothing; what it leaves behind is the sanitized schema object,
  which the model returns. \<^verbatim>\<open>fresh\<close> is the first object identity not in use.
\<close>

definition validateAndSanitize :: "protos \<Rightarrow> nat \<Rightarrow> jsval \<Rightarrow> exn + jsval" where
  "validateAndSanitize pr fresh schema =
     andThen (assert (truthy schema \<and> typeof schema = ''object'') SchemaError) (\<lambda>_.
     andThen (get_prop pr schema ''version'') (\<lambda>version.
     andThen (assert (version_ok version) SchemaError) (\<lambda>_.
     andThen (getTableNames schema) (\<lambda>names.
     andThen (forEach (sanitizeTable pr) names (schema, fresh)) (\<lambda>(schema', fresh').
     Inr schema')))))"

subsection \<open>diff\<close>

text \<open>
  \<^verbatim>\<open>diffArrays\<close> of \<^verbatim>\<open>lib/util\<close> is not among the sources. \<^verbatim>\<open>diff\<close>
  and \<^verbatim>\<open>diffTables\<close> take it as a parameter: a function of the old and the new
  index list that returns a value (a falsy one when \<^verbatim>\<open>diff\<close> is to record no
  change) or raises.
\<close>

type_synonym diffArrays_fn = "jsval \<Rightarrow> jsval \<Rightarrow> exn + jsval"

record tableChanges =
  indexDiff :: jsval
  needsRebuild :: jsval

definition diffTables ::
  "protos \<Rightarrow> diffArrays_fn \<Rightarrow> jsval \<Rightarrow> jsval \<Rightarrow> exn + tableChanges" where
  "diffTables pr da oldTableDef newTableDef =
     andThen (get_prop pr newTableDef ''index'') (\<lambda>nindex.
     andThen (if truthy nindex
              then andThen (get_prop pr oldTableDef ''index'') (\<lambda>oindex. da oindex nindex)
              else Inr (JBool False)) (\<lambda>idiff.
     andThen (get_prop pr newTableDef ''path'') (\<lambda>npath.
     andThen (if truthy npath
              then andThen (get_prop pr oldTableDef ''path'') (\<lambda>opath.
                     Inr (JBool (\<not> strict_eq opath npath)))
              else Inr npath) (\<lambda>rebuild.
     Inr \<lparr>indexDiff = idiff, needsRebuild = rebuild\<rparr>))))"

text \<open>
  The result of \<^verbatim>\<open>diff\<close>: \<^verbatim>\<open>{add, change, remove, tablesToRebuild}\<close>, each
  array in the order of its pushes.
\<close>

record diffResult =
  diff_add :: "(string \<times> jsval) list"
  diff_change :: "(string \<times> tableChanges) list"
  diff_remove :: "string list"
  diff_tablesToRebuild :: "string list"

text \<open>
  The two pushes that follow \<^verbatim>\<open>diffTables\<close>: a change entry when the index diff
  is truthy, a rebuild flag when \<^verbatim>\<open>needsRebuild\<close> is.
\<close>

definition pushChanges :: "diffResult \<Rightarrow> string \<Rightarrow> tableChanges \<Rightarrow> diffResult" where
  "pushChanges d tableName tc =
     (let d1 = (if truthy (indexDiff tc)
                then d\<lparr>diff_change := diff_change d @ [(tableName, tc)]\<rparr> else d)
      in if truthy (needsRebuild tc)
         then d1\<lparr>diff_tablesToRebuild := diff_tablesToRebuild d1 @ [tableName]\<rparr>
         else d1)"

text \<open>The body of the loop over \<^verbatim>\<open>allTableNames\<close>.\<close>

definition diffTable ::
  "protos \<Rightarrow> diffArrays_fn \<Rightarrow> jsval \<Rightarrow> jsval \<Rightarrow> diffResult \<Rightarrow> string \<Rightarrow> exn + diffResult"
  where
  "diffTable pr da oldSchema newSchema d tableName =
     andThen (if truthy oldSchema then has_prop pr tableName oldSchema else Inr False)
       (\<lambda>oldSchemaHasTable.
     andThen (get_prop pr newSchema tableName) (\<lambda>newTable.
       let newSchemaHasTable = (newTable \<noteq> JNull) in
       if oldSchemaHasTable \<and> \<not> newSchemaHasTable then
         Inr (d\<lparr>diff_remove := diff_remove d @ [tableName]\<rparr>)
       else if \<not> oldSchemaHasTable \<and> newSchemaHasTable then
         Inr (d\<lparr>diff_add := diff_add d @ [(tableName, newTable)],
                 diff_tablesToRebuild := diff_tablesToRebuild d @ [tableName]\<rparr>)
       else if truthy newTable then
         andThen (get_prop pr oldSchema tableName) (\<lambda>oldTable.
         andThen (diffTables pr da oldTable newTable) (\<lambda>tc.
         Inr (pushChanges d tableName tc)))
       else Inr d))"

definition allTableNames :: "jsval \<Rightarrow> jsval \<Rightarrow> exn + string list" where
  "allTableNames oldSchema newSchema =
     andThen (getTableNames oldSchema) (\<lambda>olds.
     andThen (getTableNames newSchema) (\<lambda>news.
     Inr (new_Set (olds @ news))))"

text \<open>
  \<^verbatim>\<open>diff(oldSchema, newSchema)\<close>. The debug line reads \<^verbatim>\<open>newSchema.version\<close>
  when there is an old schema, which raises on a new schema that is \<^verbatim>\<open>null\<close> or
  \<^verbatim>\<open>undefined\<close>.
\<close>

definition diff :: "protos \<Rightarrow> diffArrays_fn \<Rightarrow> jsval \<Rightarrow> jsval \<Rightarrow> exn + diffResult" where
  "diff pr da oldSchema newSchema =
     andThen (if \<not> truthy oldSchema then Inr JUndefined
              else andThen (get_prop pr oldSchema ''version'') (\<lambda>_.
                   get_prop pr newSchema ''version'')) (\<lambda>_.
     andThen (allTableNames oldSchema newSchema) (\<lambda>names.
     forEach (diffTable pr da oldSchema newSchema) names
       \<lparr>diff_add = [], diff_change = [], diff_remove = [], diff_tablesToRebuild = []\<rparr>))"

section \<open>The indexer\<close>

subsection \<open>The archive collaborator\<close>

text \<open>
  An archive is an external collaborator. The model holds what its calls answer:
  \<^verbatim>\<open>getInfo()\<close>, \<^verbatim>\<open>history({start, end})\<close> and \<^verbatim>\<open>readFile(path)\<close>
  each resolve to a value or reject with an error. The text of a file is modelled by
  what \<^verbatim>\<open>JSON.parse\<close> makes of it.
\<close>

record update =
  entry_path :: string
  entry_type :: string
  entry_version :: nat

record archiveInfo =
  info_version :: nat
  info_isOwner :: bool

datatype fileText = NotJson | Json jsval

fun JSON_parse :: "fileText \<Rightarrow> exn + jsval" where
  "JSON_parse NotJson = Inl SyntaxError"
| "JSON_parse (Json v) = Inr v"

text \<open>
  The handle also carries the state of its watch: \<^verbatim>\<open>fileEvents\<close> (the current
  subscription, if any), whether \<^verbatim>\<open>_loadPromise\<close> is set, and, on the side of the
  collaborator, the file-activity streams that were created and not closed since.
  A stream is named by the number \<^verbatim>\<open>createFileActivityStream\<close> gave it.
\<close>

record archive =
  url :: string
  getInfo :: "exn + archiveInfo"
  history :: "nat \<Rightarrow> nat \<Rightarrow> exn + update list"
  readFile :: "string \<Rightarrow> exn + fileText"
  fileEvents :: "nat option"
  loadPromise :: bool
  openStreams :: "nat list"
  streamsCreated :: nat

subsection \<open>The table store\<close>

text \<open>
  A table of \<^verbatim>\<open>db.tables\<close>: its name, its record-file predicate, the optional
  validator of its schema, and the records its store holds, by key. \<^verbatim>\<open>faulty\<close>
  names the keys at which the underlying store raises an unexpected error when asked to
  write or delete.
\<close>

record table =
  name :: string
  isRecordFile :: "string \<Rightarrow> bool"
  validator :: "(jsval \<Rightarrow> exn + jsval) option"
  rows :: "string \<rightharpoonup> jsval"
  faulty :: "string \<Rightarrow> bool"

text \<open>
  Modelled from the spec: \<^verbatim>\<open>IDB.put\<close>, \<^verbatim>\<open>IDB.delete\<close> and
  \<^verbatim>\<open>IDB.clear\<close> of \<^verbatim>\<open>lib/idb-wrapper\<close>, which is not among the sources.
  Section 3 has a record stored under its full URL as its unique key, section 4.4 an
  upsert by that key and a delete for which a missing record is no error, section 7 the
  unexpected store error. A value that is no object with a string \<^verbatim>\<open>_url\<close> has
  no key and cannot be stored.
\<close>

definition recordKey :: "jsval \<Rightarrow> string option" where
  "recordKey r =
     (case r of JObj i ps \<Rightarrow> (case lookup ps ''_url'' of JStr k \<Rightarrow> Some k | _ \<Rightarrow> None)
      | _ \<Rightarrow> None)"

definition IDB_put :: "table \<Rightarrow> jsval \<Rightarrow> exn + table" where
  "IDB_put t r =
     (case recordKey r of
        None \<Rightarrow> Inl StoreError
      | Some k \<Rightarrow> if faulty t k then Inl StoreError else Inr (t\<lparr>rows := (rows t)(k \<mapsto> r)\<rparr>))"

definition IDB_delete :: "table \<Rightarrow> string \<Rightarrow> exn + table" where
  "IDB_delete t k =
     (if faulty t k then Inl StoreError else Inr (t\<lparr>rows := (rows t)(k := None)\<rparr>))"

definition IDB_clear :: "table \<Rightarrow> table" where
  "IDB_clear t = t\<lparr>rows := Map.empty\<rparr>"

subsection \<open>The database\<close>

text \<open>
  One IndexMeta record per archive URL, in the store \<^verbatim>\<open>db._indexMeta\<close>, keyed by
  \<^verbatim>\<open>_url\<close>. A record written by \<^verbatim>\<open>IDB.update\<close> alone has no
  \<^verbatim>\<open>isWritable\<close>.
\<close>

record indexMeta =
  meta_version :: nat
  meta_isWritable :: "bool option"

datatype event =
    IndexUpdated string string nat
  | IndexesUpdated string nat

datatype logline =
    ClosedDb
  | CorruptedDb
  | FailedToIndex string exn
  | FailedToUnindex string exn

text \<open>
  The fields of \<^verbatim>\<open>db\<close> the indexer reads and writes. \<^verbatim>\<open>metaStore\<close> is
  \<^verbatim>\<open>db._indexMeta\<close>, \<^verbatim>\<open>tablePathPatterns\<close> is
  \<^verbatim>\<open>db._tablePathPatterns\<close> and \<^verbatim>\<open>tablesToRebuild\<close> is
  \<^verbatim>\<open>db._tablesToRebuild\<close>. \<^verbatim>\<open>emitted\<close> collects, in order, the
  notifications emitted on the tables (\<^verbatim>\<open>index-updated\<close>, with the table's name)
  and on the database (\<^verbatim>\<open>indexes-updated\<close>); \<^verbatim>\<open>console\<close> the lines
  written to the console. A path pattern is modelled by the predicate it denotes.
  (\<^verbatim>\<open>db._archives\<close>, where \<^verbatim>\<open>loadArchives\<close> keeps the handles it opens, is
  left out: no function of the indexer reads it.)
\<close>

record db =
  isOpen :: bool
  idx :: bool
  metaStore :: "string \<rightharpoonup> indexMeta"
  tables :: "table list"
  tablePathPatterns :: "(string \<Rightarrow> bool) list"
  tablesToRebuild :: "string list"
  emitted :: "event list"
  console :: "logline list"

text \<open>
  Modelled from the spec: \<^verbatim>\<open>IDB.get\<close>, \<^verbatim>\<open>IDB.put\<close>,
  \<^verbatim>\<open>IDB.delete\<close> and \<^verbatim>\<open>IDB.update\<close> on the IndexMeta store
  (\<^verbatim>\<open>lib/idb-wrapper\<close> is not among the sources). Section 4.2 has the new
  IndexMeta persisted with the remote version: the update writes the given version into
  the record of that URL and keeps what else the record holds, creating the record when
  there is none. Section 4.5 has the IndexMeta entry of an unindexed archive deleted. The source
  wraps no operation of this store in a handler, and the model gives it no faults.
\<close>

definition IDB_get :: "(string \<rightharpoonup> indexMeta) \<Rightarrow> string \<Rightarrow> indexMeta option" where
  "IDB_get store k = store k"

definition IDB_put_meta ::
  "(string \<rightharpoonup> indexMeta) \<Rightarrow> string \<Rightarrow> indexMeta \<Rightarrow> (string \<rightharpoonup> indexMeta)" where
  "IDB_put_meta store k m = store(k \<mapsto> m)"

definition IDB_delete_meta :: "(string \<rightharpoonup> indexMeta) \<Rightarrow> string \<Rightarrow> (string \<rightharpoonup> indexMeta)" where
  "IDB_delete_meta store k = store(k := None)"

definition IDB_update ::
  "(string \<rightharpoonup> indexMeta) \<Rightarrow> string \<Rightarrow> nat \<Rightarrow> (string \<rightharpoonup> indexMeta)" where
  "IDB_update store k v =
     (case store k of
        None \<Rightarrow> store(k \<mapsto> \<lparr>meta_version = v, meta_isWritable = None\<rparr>)
      | Some m \<Rightarrow> store(k \<mapsto> m\<lparr>meta_version := v\<rparr>))"

text \<open>\<^verbatim>\<open>anymatch(patterns, path)\<close>: some pattern matches.\<close>

definition anymatch :: "(string \<Rightarrow> bool) list \<Rightarrow> string \<Rightarrow> bool" where
  "anymatch patterns p = list_ex (\<lambda>m. m p) patterns"

subsection \<open>scanArchiveHistoryForUpdates\<close>

text \<open>
  \<^verbatim>\<open>updates\<close> is an object keyed by path: an assignment to a new key appends it,
  an assignment to a key it has replaces the value in place. (Archive paths start with
  a slash; none is an array index, which \<^verbatim>\<open>Object.keys\<close> would list first.)
\<close>

definition collectUpdate ::
  "db \<Rightarrow> (string \<times> update) list \<Rightarrow> update \<Rightarrow> (string \<times> update) list" where
  "collectUpdate d updates u =
     (if anymatch (tablePathPatterns d) (entry_path u)
      then upsert updates (entry_path u) u else updates)"

definition scanArchiveHistoryForUpdates ::
  "db \<Rightarrow> archive \<Rightarrow> nat \<Rightarrow> nat \<Rightarrow> exn + (string \<times> update) list" where
  "scanArchiveHistoryForUpdates d a start stop =
     andThen (history a start stop) (\<lambda>h. Inr (foldl (collectUpdate d) [] h))"

subsection \<open>readAndIndexFile and unindexFile\<close>

text \<open>
  What the functions return: the name of the table, or \<^verbatim>\<open>false\<close>
  (\<^verbatim>\<open>None\<close>).
\<close>

type_synonym applied = "string option"

text \<open>
  The loop over \<^verbatim>\<open>db.tables\<close> of \<^verbatim>\<open>readAndIndexFile\<close>, inside its
  \<^verbatim>\<open>try\<close>: the first table whose predicate matches validates, stamps and stores
  the record (\<^verbatim>\<open>storeRecord\<close>, the body of the \<^verbatim>\<open>if\<close> up to the put) and
  ends the loop; falling out of the loop returns \<^verbatim>\<open>false\<close>.
\<close>

definition storeRecord :: "archive \<Rightarrow> string \<Rightarrow> jsval \<Rightarrow> table \<Rightarrow> exn + table" where
  "storeRecord a filepath record t =
     andThen (case validator t of None \<Rightarrow> Inr record | Some v \<Rightarrow> v record) (\<lambda>r1.
     andThen (set_prop r1 ''_url'' (JStr (url a @ filepath))) (\<lambda>r2.
     andThen (set_prop r2 ''_origin'' (JStr (url a))) (\<lambda>r3.
     IDB_put t r3)))"

fun indexOnFirstMatch ::
  "archive \<Rightarrow> string \<Rightarrow> jsval \<Rightarrow> table list \<Rightarrow> exn + (table list \<times> applied)" where
  "indexOnFirstMatch a filepath record [] = Inr ([], None)"
| "indexOnFirstMatch a filepath record (t # ts) =
     (if isRecordFile t filepath then
        andThen (storeRecord a filepath record t) (\<lambda>t'.
        Inr (t' # ts, Some (name t)))
      else
        andThen (indexOnFirstMatch a filepath record ts) (\<lambda>(ts', res).
        Inr (t # ts', res)))"

text \<open>
  The \<^verbatim>\<open>try\<close> block of \<^verbatim>\<open>readAndIndexFile\<close>: read, parse, then the loop.
  The \<^verbatim>\<open>catch\<close> logs and falls through to \<^verbatim>\<open>return false\<close>.
\<close>

definition readAndIndexFile_try ::
  "archive \<Rightarrow> string \<Rightarrow> table list \<Rightarrow> exn + (table list \<times> applied)" where
  "readAndIndexFile_try a filepath ts =
     andThen (readFile a filepath) (\<lambda>txt.
     andThen (JSON_parse txt) (\<lambda>record.
     indexOnFirstMatch a filepath record ts))"

definition readAndIndexFile :: "db \<Rightarrow> archive \<Rightarrow> string \<Rightarrow> db \<times> applied" where
  "readAndIndexFile d a filepath =
     (case readAndIndexFile_try a filepath (tables d) of
        Inl e \<Rightarrow> (d\<lparr>console := console d @ [FailedToIndex (url a @ filepath) e]\<rparr>, None)
      | Inr (ts, res) \<Rightarrow> (d\<lparr>tables := ts\<rparr>, res))"

fun unindexOnFirstMatch ::
  "archive \<Rightarrow> string \<Rightarrow> table list \<Rightarrow> exn + (table list \<times> applied)" where
  "unindexOnFirstMatch a filepath [] = Inr ([], None)"
| "unindexOnFirstMatch a filepath (t # ts) =
     (if isRecordFile t filepath then
        andThen (IDB_delete t (url a @ filepath)) (\<lambda>t'.
        Inr (t' # ts, Some (name t)))
      else
        andThen (unindexOnFirstMatch a filepath ts) (\<lambda>(ts', res).
        Inr (t # ts', res)))"

definition unindexFile :: "db \<Rightarrow> archive \<Rightarrow> string \<Rightarrow> db \<times> applied" where
  "unindexFile d a filepath =
     (case unindexOnFirstMatch a filepath (tables d) of
        Inl e \<Rightarrow> (d\<lparr>console := console d @ [FailedToUnindex (url a @ filepath) e]\<rparr>, None)
      | Inr (ts, res) \<Rightarrow> (d\<lparr>tables := ts\<rparr>, res))"

subsection \<open>applyUpdates\<close>

definition applyUpdate :: "db \<Rightarrow> archive \<Rightarrow> update \<Rightarrow> db \<times> applied" where
  "applyUpdate d a u =
     (if entry_type u = ''del'' then unindexFile d a (entry_path u)
      else readAndIndexFile d a (entry_path u))"

text \<open>
  \<^verbatim>\<open>Promise.all\<close> over the paths of \<^verbatim>\<open>updates\<close>. The callbacks run
  interleaved; each has a single store operation, on the record keyed by its own file
  URL, and none reads the store, so the stores they leave do not depend on the
  interleaving (\<^verbatim>\<open>applyUpdates_order_irrelevant\<close> below). The model runs them one
  after the other, in the order of the keys; the results come in that order, as
  \<^verbatim>\<open>Promise.all\<close> gives them. Neither callee rejects, so \<^verbatim>\<open>applyUpdates\<close>
  has no error result.
\<close>

fun applyUpdates :: "db \<Rightarrow> archive \<Rightarrow> (string \<times> update) list \<Rightarrow> db \<times> applied list" where
  "applyUpdates d a [] = (d, [])"
| "applyUpdates d a ((p, u) # updates) =
     (case applyUpdate d a u of (d1, res) \<Rightarrow>
        (case applyUpdates d1 a updates of (d2, results) \<Rightarrow> (d2, res # results)))"

subsection \<open>indexArchive\<close>

datatype completion = Returned | Threw exn

text \<open>
  The emissions that end a pass: \<^verbatim>\<open>new Set(results)\<close> is walked in order, a
  falsy element (\<^verbatim>\<open>false\<close>, or an empty name) is skipped, every other one
  emits \<^verbatim>\<open>index-updated\<close> on its table; then \<^verbatim>\<open>indexes-updated\<close> is
  emitted on the database.
\<close>

definition updatedTables :: "applied list \<Rightarrow> string list" where
  "updatedTables results =
     concat (map (\<lambda>r. case r of None \<Rightarrow> [] | Some n \<Rightarrow> if n = [] then [] else [n])
                 (new_Set results))"

definition emitUpdates :: "db \<Rightarrow> archive \<Rightarrow> nat \<Rightarrow> applied list \<Rightarrow> db" where
  "emitUpdates d a v results =
     d\<lparr>emitted := emitted d @ map (\<lambda>n. IndexUpdated n (url a) v) (updatedTables results)
                       @ [IndexesUpdated (url a) v]\<rparr>"

text \<open>\<^verbatim>\<open>indexMeta = indexMeta || {version: 0}\<close>\<close>

definition indexedVersion :: "db \<Rightarrow> string \<Rightarrow> nat" where
  "indexedVersion d u = (case IDB_get (metaStore d) u of None \<Rightarrow> 0 | Some m \<Rightarrow> meta_version m)"

text \<open>
  The pass runs under the lock of its archive, which \<^verbatim>\<open>finally\<close> releases on
  every way out; passes on one archive therefore run one after the other, and the model
  is the pass as a whole. It returns the database it leaves and how it ended: a
  rejection of \<^verbatim>\<open>getInfo\<close> or \<^verbatim>\<open>history\<close> leaves the pass at that point.
\<close>

definition indexArchive :: "db \<Rightarrow> archive \<Rightarrow> db \<times> completion" where
  "indexArchive d a =
     (if \<not> isOpen d then (d\<lparr>console := console d @ [ClosedDb]\<rparr>, Returned)
      else if \<not> idx d then (d\<lparr>console := console d @ [CorruptedDb]\<rparr>, Returned)
      else
        (case getInfo a of
           Inl e \<Rightarrow> (d, Threw e)
         | Inr archiveMeta \<Rightarrow>
             if indexedVersion d (url a) \<ge> info_version archiveMeta then (d, Returned)
             else
               (case scanArchiveHistoryForUpdates d a
                       (indexedVersion d (url a) + 1) (info_version archiveMeta + 1) of
                  Inl e \<Rightarrow> (d, Threw e)
                | Inr updates \<Rightarrow>
                    (case applyUpdates d a updates of (d1, results) \<Rightarrow>
                       (emitUpdates
                          (d1\<lparr>metaStore :=
                                IDB_update (metaStore d1) (url a) (info_version archiveMeta)\<rparr>)
                          a (info_version archiveMeta) results,
                        Returned)))))"

subsection \<open>addArchive\<close>

text \<open>
  The database side of \<^verbatim>\<open>addArchive\<close>: a fresh IndexMeta at version 0 is put for
  the archive, then the archive is indexed. (The watch that follows a pass that
  returned is on the side of the handle, below.)
\<close>

definition addArchive :: "db \<Rightarrow> archive \<Rightarrow> db \<times> completion" where
  "addArchive d a =
     (case getInfo a of
        Inl e \<Rightarrow> (d, Threw e)
      | Inr info \<Rightarrow>
          indexArchive
            (d\<lparr>metaStore := IDB_put_meta (metaStore d) (url a)
                  \<lparr>meta_version = 0, meta_isWritable = Some (info_isOwner info)\<rparr>\<rparr>) a)"

subsection \<open>resetOutdatedIndexes\<close>

definition resetOutdatedIndexes :: "db \<Rightarrow> db \<times> bool" where
  "resetOutdatedIndexes d =
     (if length (tablesToRebuild d) = 0 then (d, False)
      else
        (d\<lparr>tables := map IDB_clear (tables d),
            metaStore := (\<lambda>u. map_option (\<lambda>m. m\<lparr>meta_version := 0\<rparr>) (metaStore d u))\<rparr>,
         True))"

subsection \<open>watchArchive and unwatchArchive\<close>

text \<open>
  \<^verbatim>\<open>watchArchive\<close> is an asynchronous function with one suspension point, the
  \<^verbatim>\<open>await archive._loadPromise\<close> between its check of \<^verbatim>\<open>fileEvents\<close> and
  its subscription. A call runs up to that point at once (\<^verbatim>\<open>watchArchive_enter\<close>);
  when it suspended there, the rest runs later (\<^verbatim>\<open>watchArchive_resume\<close>), after
  whatever else was started in between.
\<close>

text \<open>
  How the first part of a call ends: it found \<^verbatim>\<open>fileEvents\<close> set, wrote its
  error to the console and returned; it subscribed; or it is suspended at the
  \<^verbatim>\<open>await\<close>.
\<close>

datatype watchStep = Refused | Subscribed | Suspended

text \<open>
  \<^verbatim>\<open>archive.fileEvents = archive.createFileActivityStream(...)\<close>: the collaborator
  opens a new stream, and the handle points to it. The two listeners are attached to
  that stream.
\<close>

definition subscribe :: "archive \<Rightarrow> archive" where
  "subscribe a =
     a\<lparr>fileEvents := Some (streamsCreated a),
        openStreams := openStreams a @ [streamsCreated a],
        streamsCreated := streamsCreated a + 1\<rparr>"

definition watchArchive_enter :: "archive \<Rightarrow> archive \<times> watchStep" where
  "watchArchive_enter a =
     (if fileEvents a \<noteq> None then (a, Refused)
      else if loadPromise a then (a, Suspended)
      else (subscribe a, Subscribed))"

definition watchArchive_resume :: "archive \<Rightarrow> archive" where
  "watchArchive_resume a = subscribe a"

text \<open>A call that nothing interleaves with.\<close>

definition watchArchive :: "archive \<Rightarrow> archive" where
  "watchArchive a =
     (case watchArchive_enter a of
        (a1, Suspended) \<Rightarrow> watchArchive_resume a1
      | (a1, _) \<Rightarrow> a1)"

definition unwatchArchive :: "archive \<Rightarrow> archive" where
  "unwatchArchive a =
     (case fileEvents a of
        None \<Rightarrow> a
      | Some s \<Rightarrow> a\<lparr>openStreams := removeAll s (openStreams a), fileEvents := None\<rparr>)"

subsection \<open>unindexArchive and removeArchive\<close>

text \<open>
  \<^verbatim>\<open>table.listRecordFiles(archive)\<close> is not among the sources;
  \<^verbatim>\<open>unindexArchive\<close> takes it as a parameter. It resolves to a list of matches or
  rejects. A match names a table (here by its place in \<^verbatim>\<open>db.tables\<close>; a place
  beyond the list stands for a table that is none of them) and a record URL.
\<close>

type_synonym recordMatch = "nat \<times> string"

type_synonym listRecordFiles_fn = "table \<Rightarrow> archive \<Rightarrow> exn + recordMatch list"

text \<open>
  \<^verbatim>\<open>scanArchiveForRecords\<close>: \<^verbatim>\<open>Promise.all\<close> over the listings of all
  tables, flattened. The listings read only; when one rejects, the scan rejects (when
  several do, the model reports the first in the order of the tables).
\<close>

fun scanArchiveForRecords ::
  "listRecordFiles_fn \<Rightarrow> archive \<Rightarrow> table list \<Rightarrow> exn + recordMatch list" where
  "scanArchiveForRecords lrf a [] = Inr []"
| "scanArchiveForRecords lrf a (t # ts) =
     andThen (lrf t a) (\<lambda>ms.
     andThen (scanArchiveForRecords lrf a ts) (\<lambda>rest. Inr (ms @ rest)))"

text \<open>
  \<^verbatim>\<open>Promise.all(recordMatches.map(match => IDB.delete(match.table, match.recordUrl)))\<close>:
  every delete is started, so every delete that the store accepts takes place; the
  whole rejects when one of them does. \<^verbatim>\<open>deleteMatch\<close> threads the tables and
  the first error.
\<close>

definition deleteMatch ::
  "table list \<times> exn option \<Rightarrow> recordMatch \<Rightarrow> table list \<times> exn option" where
  "deleteMatch st m =
     (case st of (ts, err) \<Rightarrow>
      (case m of (i, k) \<Rightarrow>
        if i < length ts then
          (case IDB_delete (ts ! i) k of
             Inl e \<Rightarrow> (ts, if err = None then Some e else err)
           | Inr t' \<Rightarrow> (ts[i := t'], err))
        else (ts, err)))"

text \<open>
  \<^verbatim>\<open>unindexArchive\<close>, under the lock of its archive: the records are deleted,
  then the IndexMeta of the archive. A rejected listing or delete leaves the function
  before the IndexMeta is touched.
\<close>

definition unindexArchive :: "listRecordFiles_fn \<Rightarrow> db \<Rightarrow> archive \<Rightarrow> db \<times> completion" where
  "unindexArchive lrf d a =
     (case scanArchiveForRecords lrf a (tables d) of
        Inl e \<Rightarrow> (d, Threw e)
      | Inr recordMatches \<Rightarrow>
          (case foldl deleteMatch (tables d, None) recordMatches of
             (ts, Some e) \<Rightarrow> (d\<lparr>tables := ts\<rparr>, Threw e)
           | (ts, None) \<Rightarrow>
               (d\<lparr>tables := ts, metaStore := IDB_delete_meta (metaStore d) (url a)\<rparr>,
                Returned)))"

text \<open>
  \<^verbatim>\<open>removeArchive\<close>: the archive is unindexed and, when that returned, its watch
  is ended.
\<close>

definition removeArchive ::
  "listRecordFiles_fn \<Rightarrow> db \<Rightarrow> archive \<Rightarrow> db \<times> archive \<times> completion" where
  "removeArchive lrf d a =
     (case unindexArchive lrf d a of
        (d', Returned) \<Rightarrow> (d', unwatchArchive a, Returned)
      | (d', Threw e) \<Rightarrow> (d', a, Threw e))"

subsection \<open>loadArchives\<close>

text \<open>
  \<^verbatim>\<open>loadArchives\<close> opens a handle for every record of the IndexMeta store and
  starts a pass on each. \<^verbatim>\<open>DatArchive\<close> is an external constructor: the model
  takes it as the parameter \<^verbatim>\<open>newDatArchive\<close>, and takes the URLs in the order
  \<^verbatim>\<open>db._indexMeta.each\<close> visits them. The passes run under the locks of their
  archives; the model runs them one after the other. \<^verbatim>\<open>Promise.all\<close> waits for
  all of them and rejects when one has (the model reports the first in that order).
  The watch that is started on every handle is on the side of the handle.
\<close>

definition loadArchive ::
  "(string \<Rightarrow> archive) \<Rightarrow> db \<times> completion \<Rightarrow> string \<Rightarrow> db \<times> completion" where
  "loadArchive newDatArchive st k =
     (case st of (d, c) \<Rightarrow>
      (case indexArchive d (newDatArchive k) of
         (d', c') \<Rightarrow> (d', if c = Returned then c' else c)))"

definition loadArchives ::
  "(string \<Rightarrow> archive) \<Rightarrow> string list \<Rightarrow> db \<Rightarrow> db \<times> completion" where
  "loadArchives newDatArchive urls d = foldl (loadArchive newDatArchive) (d, Returned) urls"

subsection \<open>waitTillIndexed\<close>

text \<open>
  \<^verbatim>\<open>waitTillIndexed\<close> reads the IndexMeta and the archive's metadata: it
  returns at once when the archive is indexed, rejects when the metadata cannot be
  read, and otherwise waits for an \<^verbatim>\<open>indexes-updated\<close> notification. It writes
  nothing to the stores.
\<close>

datatype waiting = AlreadyIndexed | WaitsForIndex nat | WaitFailed exn

definition waitTillIndexed :: "db \<Rightarrow> archive \<Rightarrow> db \<times> waiting" where
  "waitTillIndexed d a =
     (case getInfo a of
        Inl e \<Rightarrow> (d, WaitFailed e)
      | Inr archiveMeta \<Rightarrow>
          if indexedVersion d (url a) \<ge> info_version archiveMeta then (d, AlreadyIndexed)
          else (d, WaitsForIndex (info_version archiveMeta)))"

subsection \<open>The operations of the indexer\<close>

text \<open>
  The exported functions of the indexer, and the database each leaves.
  \<^verbatim>\<open>watchArchive\<close> and \<^verbatim>\<open>unwatchArchive\<close> work on the handle of the
  archive and leave the database as it is (the pass that a \<^verbatim>\<open>changed\<close> event of
  a watch starts is an \<^verbatim>\<open>indexArchive\<close>).
\<close>

datatype operation =
    LoadArchives "string list"
  | AddArchive archive
  | RemoveArchive archive
  | WatchArchive archive
  | UnwatchArchive archive
  | WaitTillIndexed archive
  | ResetOutdatedIndexes
  | IndexArchive archive
  | UnindexArchive archive

definition perform ::
  "(string \<Rightarrow> archive) \<Rightarrow> listRecordFiles_fn \<Rightarrow> db \<Rightarrow> operation \<Rightarrow> db" where
  "perform newDatArchive lrf d op =
     (case op of
        LoadArchives urls \<Rightarrow> fst (loadArchives newDatArchive urls d)
      | AddArchive a \<Rightarrow> fst (addArchive d a)
      | RemoveArchive a \<Rightarrow> fst (removeArchive lrf d a)
      | WatchArchive a \<Rightarrow> d
      | UnwatchArchive a \<Rightarrow> d
      | WaitTillIndexed a \<Rightarrow> fst (waitTillIndexed d a)
      | ResetOutdatedIndexes \<Rightarrow> fst (resetOutdatedIndexes d)
      | IndexArchive a \<Rightarrow> fst (indexArchive d a)
      | UnindexArchive a \<Rightarrow> fst (unindexArchive lrf d a))"

section \<open>What the claims speak of\<close>

subsection \<open>Schemas\<close>


text \<open>
  \<^verbatim>\<open>oldSchema ? (tableName in oldSchema) : false\<close>, where it does not raise:
  the name is a property of the old schema, its own or an inherited one.
\<close>

definition oldSchemaHas :: "protos \<Rightarrow> jsval \<Rightarrow> string \<Rightarrow> bool" where
  "oldSchemaHas pr oldSchema t = (truthy oldSchema \<and> has_prop pr t oldSchema = Inr True)"

text \<open>\<^verbatim>\<open>schema[tableName]\<close> and \<^verbatim>\<open>tableDef.path\<close>, where they do not raise.\<close>

definition tableOf :: "protos \<Rightarrow> jsval \<Rightarrow> string \<Rightarrow> jsval" where
  "tableOf pr schema t = (case get_prop pr schema t of Inr v \<Rightarrow> v | Inl e \<Rightarrow> JUndefined)"




text \<open>
  A realm for closed examples: a plain object inherits the members of
  \<^verbatim>\<open>Object.prototype\<close>, each a function of its own (\<^verbatim>\<open>__proto__\<close> reads as
  the prototype object itself). The examples read no property of any other kind of
  value beyond its own.
\<close>

definition Object_prototype :: "(string \<times> jsval) list" where
  "Object_prototype =
     [(''constructor'', JFun 900 []), (''hasOwnProperty'', JFun 901 []),
      (''isPrototypeOf'', JFun 902 []), (''propertyIsEnumerable'', JFun 903 []),
      (''toLocaleString'', JFun 904 []), (''toString'', JFun 905 []),
      (''valueOf'', JFun 906 []), (''__defineGetter__'', JFun 907 []),
      (''__defineSetter__'', JFun 908 []), (''__lookupGetter__'', JFun 909 []),
      (''__lookupSetter__'', JFun 910 []), (''__proto__'', JObj 911 [])]"

definition objectRealm :: protos where
  "objectRealm v k = (case v of JObj i ps \<Rightarrow> map_of Object_prototype k | _ \<Rightarrow> None)"












subsection \<open>The history scan\<close>

text \<open>
  The latest change to a path in a history: the last entry, in history order, that is
  on that path and matches a table path pattern.
\<close>

definition latestChange :: "db \<Rightarrow> update list \<Rightarrow> string \<Rightarrow> update option" where
  "latestChange d h p =
     (case filter (\<lambda>u. entry_path u = p \<and> anymatch (tablePathPatterns d) (entry_path u)) h of
        [] \<Rightarrow> None
      | us \<Rightarrow> Some (last us))"

subsection \<open>One update of a batch\<close>

text \<open>
  The \<^verbatim>\<open>try\<close> block that handles an update: that of \<^verbatim>\<open>unindexFile\<close> for
  a deletion, that of \<^verbatim>\<open>readAndIndexFile\<close> otherwise. A per-record error is an
  error raised in it; the line the \<^verbatim>\<open>catch\<close> then logs is \<^verbatim>\<open>failureLine\<close>.
\<close>

definition tryUpdate :: "archive \<Rightarrow> update \<Rightarrow> table list \<Rightarrow> exn + (table list \<times> applied)" where
  "tryUpdate a u ts =
     (if entry_type u = ''del'' then unindexOnFirstMatch a (entry_path u) ts
      else readAndIndexFile_try a (entry_path u) ts)"

definition failureLine :: "archive \<Rightarrow> update \<Rightarrow> exn \<Rightarrow> logline" where
  "failureLine a u e =
     (if entry_type u = ''del'' then FailedToUnindex (url a @ entry_path u) e
      else FailedToIndex (url a @ entry_path u) e)"

text \<open>The tables an update leaves, and the result it gives.\<close>

definition tablesAfter :: "archive \<Rightarrow> update \<Rightarrow> table list \<Rightarrow> table list" where
  "tablesAfter a u ts = (case tryUpdate a u ts of Inl e \<Rightarrow> ts | Inr (ts', res) \<Rightarrow> ts')"

definition resultOf :: "archive \<Rightarrow> update \<Rightarrow> table list \<Rightarrow> applied" where
  "resultOf a u ts = (case tryUpdate a u ts of Inl e \<Rightarrow> None | Inr (ts', res) \<Rightarrow> res)"

text \<open>
  What an update does to the table it selects: nothing when its \<^verbatim>\<open>try\<close> block
  raises, else the put or the delete. \<^verbatim>\<open>modifyFirst\<close> applies it to the first
  table that matches.
\<close>

definition storeStep :: "archive \<Rightarrow> update \<Rightarrow> table \<Rightarrow> table" where
  "storeStep a u t =
     (case (if entry_type u = ''del'' then IDB_delete t (url a @ entry_path u)
            else andThen (readFile a (entry_path u)) (\<lambda>txt.
                 andThen (JSON_parse txt) (\<lambda>record.
                 storeRecord a (entry_path u) record t))) of
        Inl e \<Rightarrow> t
      | Inr t' \<Rightarrow> t')"

fun modifyFirst :: "('a \<Rightarrow> bool) \<Rightarrow> ('a \<Rightarrow> 'a) \<Rightarrow> 'a list \<Rightarrow> 'a list" where
  "modifyFirst P g [] = []"
| "modifyFirst P g (x # xs) = (if P x then g x # xs else x # modifyFirst P g xs)"

text \<open>
  The table an update goes to: the first of \<^verbatim>\<open>db.tables\<close>, by its place in
  the list, whose predicate takes the path.
\<close>

definition firstMatch :: "table list \<Rightarrow> string \<Rightarrow> nat \<Rightarrow> bool" where
  "firstMatch ts p i =
     (i < length ts \<and> isRecordFile (ts ! i) p \<and> (\<forall>j<i. \<not> isRecordFile (ts ! j) p))"

text \<open>
  A valid change of a file: its text parses, the validator of the table (if it has one)
  returns an object, and the store of the table takes a write at the URL of the file.
  The record to store is then that object with the two provenance fields. A valid
  deletion is one whose table takes the delete.
\<close>

definition validated :: "table \<Rightarrow> jsval \<Rightarrow> exn + jsval" where
  "validated t r = (case validator t of None \<Rightarrow> Inr r | Some f \<Rightarrow> f r)"

definition validPut ::
  "archive \<Rightarrow> table \<Rightarrow> update \<Rightarrow> nat \<Rightarrow> (string \<times> jsval) list \<Rightarrow> bool" where
  "validPut a t u i ps =
     (entry_type u \<noteq> ''del'' \<and>
      (case readFile a (entry_path u) of
         Inr (Json r) \<Rightarrow> validated t r = Inr (JObj i ps)
       | _ \<Rightarrow> False) \<and>
      \<not> faulty t (url a @ entry_path u))"

definition stamped :: "archive \<Rightarrow> string \<Rightarrow> nat \<Rightarrow> (string \<times> jsval) list \<Rightarrow> jsval" where
  "stamped a p i ps =
     JObj i (upsert (upsert ps ''_url'' (JStr (url a @ p))) ''_origin'' (JStr (url a)))"

definition validDelete :: "archive \<Rightarrow> table \<Rightarrow> update \<Rightarrow> bool" where
  "validDelete a t u = (entry_type u = ''del'' \<and> \<not> faulty t (url a @ entry_path u))"

text \<open>
  The lines a batch logs: one for each update whose \<^verbatim>\<open>try\<close> block raises.
\<close>

definition failures :: "archive \<Rightarrow> table list \<Rightarrow> (string \<times> update) list \<Rightarrow> logline list" where
  "failures a ts ups =
     concat (map (\<lambda>(p, u). case tryUpdate a u ts of
                              Inl e \<Rightarrow> [failureLine a u e] | Inr x \<Rightarrow> []) ups)"

subsection \<open>The persisted version across an operation\<close>

text \<open>
  The IndexMeta record of a URL is kept from one database to the next: if there was
  one, there still is one, and its version is not lower.
\<close>

definition versionKept :: "db \<Rightarrow> db \<Rightarrow> string \<Rightarrow> bool" where
  "versionKept d d' k =
     (case metaStore d k of
        None \<Rightarrow> True
      | Some m \<Rightarrow> (case metaStore d' k of None \<Rightarrow> False
                  | Some m' \<Rightarrow> meta_version m \<le> meta_version m'))"

text \<open>
  The operations that can lower the persisted version of a URL or drop its record: the
  rebuild reset (of every URL, when a table is flagged), and \<^verbatim>\<open>addArchive\<close>,
  \<^verbatim>\<open>removeArchive\<close> and \<^verbatim>\<open>unindexArchive\<close> (of the URL of their
  archive).
\<close>

definition mayLower :: "db \<Rightarrow> operation \<Rightarrow> string \<Rightarrow> bool" where
  "mayLower d op k =
     (case op of
        ResetOutdatedIndexes \<Rightarrow> tablesToRebuild d \<noteq> []
      | AddArchive a \<Rightarrow> k = url a
      | RemoveArchive a \<Rightarrow> k = url a
      | UnindexArchive a \<Rightarrow> k = url a
      | _ \<Rightarrow> False)"
subsection \<open>A scenario\<close>

text \<open>
  The scenario of section 8. One table, \<^verbatim>\<open>posts\<close>, takes the files under
  \<^verbatim>\<open>/posts/\<close>; its validator rejects a record without a string title. The
  archive \<^verbatim>\<open>dat://alice\<close> is at version 5: \<^verbatim>\<open>/posts/a.json\<close> was written
  once (it has no title), \<^verbatim>\<open>/posts/b.json\<close> was written, deleted and written
  again, and \<^verbatim>\<open>/notes.txt\<close> belongs to no table.
\<close>

definition isPostFile :: "string \<Rightarrow> bool" where
  "isPostFile p = (take 7 p = ''/posts/'')"

definition requireTitle :: "jsval \<Rightarrow> exn + jsval" where
  "requireTitle r =
     (case get_prop objectRealm r ''title'' of Inr (JStr s) \<Rightarrow> Inr r | _ \<Rightarrow> Inl ValidationError)"

definition posts_table :: table where
  "posts_table =
     \<lparr>name = ''posts'', isRecordFile = isPostFile, validator = Some requireTitle,
      rows = Map.empty, faulty = (\<lambda>k. False)\<rparr>"

definition alice_log :: "update list" where
  "alice_log =
     [\<lparr>entry_path = ''/posts/a.json'', entry_type = ''put'', entry_version = 1\<rparr>,
      \<lparr>entry_path = ''/posts/b.json'', entry_type = ''put'', entry_version = 2\<rparr>,
      \<lparr>entry_path = ''/posts/b.json'', entry_type = ''del'', entry_version = 3\<rparr>,
      \<lparr>entry_path = ''/notes.txt'', entry_type = ''put'', entry_version = 4\<rparr>,
      \<lparr>entry_path = ''/posts/b.json'', entry_type = ''put'', entry_version = 5\<rparr>]"

definition alice_files :: "string \<Rightarrow> exn + fileText" where
  "alice_files p =
     (if p = ''/posts/a.json'' then Inr (Json (JObj 20 [(''body'', JStr ''untitled'')]))
      else if p = ''/posts/b.json'' then Inr (Json (JObj 21 [(''title'', JStr ''hello'')]))
      else Inl ArchiveError)"

definition alice :: archive where
  "alice =
     \<lparr>url = ''dat://alice'',
      getInfo = Inr \<lparr>info_version = 5, info_isOwner = True\<rparr>,
      history = (\<lambda>start stop.
        Inr (filter (\<lambda>u. start \<le> entry_version u \<and> entry_version u < stop) alice_log)),
      readFile = alice_files,
      fileEvents = None, loadPromise = True, openStreams = [], streamsCreated = 0\<rparr>"

text \<open>The same archive when its history cannot be fetched.\<close>

definition alice_offline :: archive where
  "alice_offline = alice\<lparr>history := (\<lambda>start stop. Inl ArchiveError)\<rparr>"

text \<open>
  A database that has indexed nothing yet, and the updates of the window
  \<^verbatim>\<open>[1, 6)\<close> of the archive.
\<close>

definition fresh_db :: db where
  "fresh_db =
     \<lparr>isOpen = True, idx = True, metaStore = Map.empty, tables = [posts_table],
      tablePathPatterns = [isPostFile], tablesToRebuild = [],
      emitted = [], console = []\<rparr>"

definition alice_updates :: "(string \<times> update) list" where
  "alice_updates =
     [(''/posts/a.json'',
       \<lparr>entry_path = ''/posts/a.json'', entry_type = ''put'', entry_version = 1\<rparr>),
      (''/posts/b.json'',
       \<lparr>entry_path = ''/posts/b.json'', entry_type = ''put'', entry_version = 5\<rparr>)]"

text \<open>The record that indexing \<^verbatim>\<open>/posts/b.json\<close> stores, and the table with it.\<close>

definition post_b :: jsval where
  "post_b = JObj 21 [(''title'', JStr ''hello''), (''_url'', JStr ''dat://alice/posts/b.json''),
                     (''_origin'', JStr ''dat://alice'')]"

definition posts_indexed :: table where
  "posts_indexed = posts_table\<lparr>rows := [''dat://alice/posts/b.json'' \<mapsto> post_b]\<rparr>"

text \<open>
  The database after the pass over \<^verbatim>\<open>dat://alice\<close>; the same with a rebuild
  pending; and the fresh database when it is closed.
\<close>

definition indexed_db :: db where
  "indexed_db =
     fresh_db\<lparr>tables := [posts_indexed],
        console := [FailedToIndex ''dat://alice/posts/a.json'' ValidationError],
        metaStore := [''dat://alice'' \<mapsto> \<lparr>meta_version = 5, meta_isWritable = None\<rparr>],
        emitted := [IndexUpdated ''posts'' ''dat://alice'' 5, IndexesUpdated ''dat://alice'' 5]\<rparr>"

definition stale_db :: db where
  "stale_db = indexed_db\<lparr>tablesToRebuild := [''posts'']\<rparr>"

definition closed_db :: db where
  "closed_db = fresh_db\<lparr>isOpen := False\<rparr>"

text \<open>
  A later batch on the indexed database: \<^verbatim>\<open>/posts/a.json\<close> was written again,
  still without a title, and \<^verbatim>\<open>/posts/b.json\<close> was deleted.
\<close>

definition alice_cleanup :: "(string \<times> update) list" where
  "alice_cleanup =
     [(''/posts/a.json'',
       \<lparr>entry_path = ''/posts/a.json'', entry_type = ''put'', entry_version = 6\<rparr>),
      (''/posts/b.json'',
       \<lparr>entry_path = ''/posts/b.json'', entry_type = ''del'', entry_version = 7\<rparr>)]"

text \<open>
  The record files the table lists for the archive, and the handle
  \<^verbatim>\<open>loadArchives\<close> opens for a URL.
\<close>

definition alice_listing :: listRecordFiles_fn where
  "alice_listing t a = Inr [(0, ''dat://alice/posts/b.json'')]"

definition open_alice :: "string \<Rightarrow> archive" where
  "open_alice k = alice"

subsection \<open>The watch\<close>

text \<open>
  A handle holds at most one subscription, the one \<^verbatim>\<open>fileEvents\<close> points to: the
  streams that are open on it are that one, or none.
\<close>

definition oneSubscription :: "archive \<Rightarrow> bool" where
  "oneSubscription a = (openStreams a = (case fileEvents a of None \<Rightarrow> [] | Some s \<Rightarrow> [s]))"

text \<open>
  Two calls of \<^verbatim>\<open>watchArchive\<close> on the handle of \<^verbatim>\<open>dat://alice\<close>, the
  second started before the first came back from its \<^verbatim>\<open>await\<close>: both enter, then
  both resume.
\<close>

definition alice_watched_twice :: archive where
  "alice_watched_twice =
     watchArchive_resume (watchArchive_resume
       (fst (watchArchive_enter (fst (watchArchive_enter alice)))))"


section \<open>Schema validation and diff: proofs\<close>

lemma andThen_Inr_iff: "andThen r f = Inr y \<longleftrightarrow> (\<exists>x. r = Inr x \<and> f x = Inr y)"
  by (cases r) (auto simp: andThen_def)

lemma andThen_Inr [simp]: "andThen (Inr x) f = f x"
  by (simp add: andThen_def)

lemma andThen_Inl [simp]: "andThen (Inl e) f = Inl e"
  by (simp add: andThen_def)

subsection \<open>validateAndSanitize\<close>

text \<open>A schema without a numeric, positive version is refused, whatever else it holds.\<close>

lemma validateAndSanitize_version:
  assumes "get_prop pr schema ''version'' = Inr v" and "\<not> version_ok v"
  shows "validateAndSanitize pr fresh schema = Inl SchemaError"
  using assms by (simp add: validateAndSanitize_def assert_def)

lemma validateAndSanitize_not_object:
  assumes "typeof schema \<noteq> ''object'' \<or> \<not> truthy schema"
  shows "validateAndSanitize pr fresh schema = Inl SchemaError"
  using assms by (auto simp: validateAndSanitize_def assert_def)

text \<open>
  C9. The claim: \<^verbatim>\<open>validateAndSanitize\<close> raises a configuration error when a
  table's index specifier is neither a string nor an array of strings. The code's
  assertion reads \<^verbatim>\<open>schema.index\<close> where its message and the next line speak of
  \<^verbatim>\<open>table.index\<close>, so the specifier of a table is never looked at: the schema
  \<^verbatim>\<open>{version: 1, posts: {index: 5}}\<close> passes, and comes out with the index
  \<^verbatim>\<open>[5]\<close>.
\<close>

theorem validateAndSanitize_accepts_malformed_index:
  "validateAndSanitize objectRealm 3
     (JObj 1 [(''version'', JNum 1), (''posts'', JObj 2 [(''index'', JNum 5)])])
     = Inr (JObj 1 [(''version'', JNum 1),
                    (''posts'', JObj 2 [(''index'', JArr 3 [JNum 5] [])])])"
  by (simp add: validateAndSanitize_def assert_def version_ok_def getTableNames_def
      sanitizeTable_def write_back_def get_prop_def objectRealm_def Object_prototype_def
      arrayify_def isArrayOfStrings_def)

text \<open>
  The same slip the other way round: a well-formed table is refused as soon as the
  schema has a table that is called \<^verbatim>\<open>index\<close>.
\<close>

lemma validateAndSanitize_refuses_table_named_index:
  "validateAndSanitize objectRealm 4 (JObj 1 [(''version'', JNum 1),
      (''posts'', JObj 2 [(''index'', JStr ''title'')]), (''index'', JObj 3 [])])
     = Inl SchemaError"
  by (simp add: validateAndSanitize_def assert_def version_ok_def getTableNames_def
      sanitizeTable_def write_back_def get_prop_def objectRealm_def Object_prototype_def
      arrayify_def isArrayOfStrings_def)

subsection \<open>diff\<close>
















text \<open>
  A path that is an object is compared by identity: the array shared by both versions
  is no change, an array of its own with the same patterns is.
\<close>

lemma strict_eq_same_object: "objectId a \<noteq> None \<Longrightarrow> strict_eq a a"
  by (auto simp: strict_eq_def)










subsection \<open>When diff returns\<close>

lemma forEach_returns:
  assumes "\<And>s x. x \<in> set xs \<Longrightarrow> \<exists>s'. f s x = Inr s'"
  shows "\<exists>s'. forEach f xs s = Inr s'"
  using assms
proof (induction xs arbitrary: s)
  case Nil
  then show ?case by simp
next
  case (Cons x xs)
  from Cons.prems [of x s] obtain s1 where s1: "f s x = Inr s1" by auto
  from Cons.IH [of s1] Cons.prems obtain s' where "forEach f xs s1 = Inr s'" by auto
  with s1 show ?case by simp
qed

text \<open>
  \<^verbatim>\<open>diff\<close> returns on plain objects (the old schema may also be undefined), as long
  as \<^verbatim>\<open>diffArrays\<close> does not raise and the old schema holds no \<^verbatim>\<open>null\<close> or
  \<^verbatim>\<open>undefined\<close> under a name that the new schema defines: for such a name
  \<^verbatim>\<open>diffTables\<close> reads a property of \<^verbatim>\<open>null\<close>.
\<close>

lemma get_prop_tableOf:
  assumes "v \<noteq> JUndefined" "v \<noteq> JNull"
  shows "get_prop pr v k = Inr (tableOf pr v k)"
  using assms by (simp add: tableOf_def get_prop_def)

lemma truthy_defined: "truthy v \<Longrightarrow> v \<noteq> JUndefined \<and> v \<noteq> JNull"
  by (cases v) simp_all

lemma diffTables_returns:
  assumes "\<And>x y. \<exists>z. da x y = Inr z"
    and "ot \<noteq> JNull" "ot \<noteq> JUndefined" "truthy nt"
  shows "\<exists>tc. diffTables pr da ot nt = Inr tc"
proof -
  have n: "nt \<noteq> JUndefined" "nt \<noteq> JNull" using truthy_defined [OF assms(4)] by simp_all
  note ni = get_prop_tableOf [OF n, of pr "''index''"]
  note np = get_prop_tableOf [OF n, of pr "''path''"]
  note oi = get_prop_tableOf [OF assms(3,2), of pr "''index''"]
  note op = get_prop_tableOf [OF assms(3,2), of pr "''path''"]
  obtain z where z: "da (tableOf pr ot ''index'') (tableOf pr nt ''index'') = Inr z"
    using assms(1) by blast
  show ?thesis
    by (simp add: diffTables_def ni np oi op z)
qed

lemma diff_returns:
  assumes "\<And>x y. \<exists>z. da x y = Inr z"
    and "oldSchema = JUndefined \<or> (\<exists>i ops. oldSchema = JObj i ops)"
    and "\<And>t. truthy (tableOf pr (JObj j nps) t) \<Longrightarrow> oldSchemaHas pr oldSchema t \<Longrightarrow>
           tableOf pr oldSchema t \<noteq> JNull \<and> tableOf pr oldSchema t \<noteq> JUndefined"
  shows "\<exists>d. diff pr da oldSchema (JObj j nps) = Inr d"
proof -
  let ?new = "JObj j nps"
  have names: "\<exists>names. allTableNames oldSchema ?new = Inr names"
    using assms(2) by (auto simp: allTableNames_def getTableNames_def)
  have gn: "get_prop pr ?new k = Inr (tableOf pr ?new k)" for k
    by (rule get_prop_tableOf) simp_all
  have ver: "\<exists>x. (if \<not> truthy oldSchema then Inr JUndefined
              else andThen (get_prop pr oldSchema ''version'') (\<lambda>_.
                   get_prop pr ?new ''version'')) = Inr x"
    using assms(2) by (auto simp: gn get_prop_tableOf)
  have step: "\<And>d t. \<exists>d'. diffTable pr da oldSchema ?new d t = Inr d'"
  proof -
    fix d t
    have h: "(if truthy oldSchema then has_prop pr t oldSchema else Inr False) =
             Inr (oldSchemaHas pr oldSchema t)"
      using assms(2) by (auto simp: oldSchemaHas_def has_prop_def)
    have g: "get_prop pr oldSchema t = Inr (tableOf pr oldSchema t)"
      if "oldSchemaHas pr oldSchema t"
      using assms(2) that by (auto simp: oldSchemaHas_def get_prop_tableOf)
    show "\<exists>d'. diffTable pr da oldSchema ?new d t = Inr d'"
    proof (cases "oldSchemaHas pr oldSchema t \<and> truthy (tableOf pr ?new t)")
      case True
      with assms(3) [of t]
      have "tableOf pr oldSchema t \<noteq> JNull" "tableOf pr oldSchema t \<noteq> JUndefined"
        by simp_all
      then have "\<exists>tc. diffTables pr da (tableOf pr oldSchema t) (tableOf pr ?new t) = Inr tc"
        using True by (intro diffTables_returns assms(1)) simp_all
      then obtain tc
        where "diffTables pr da (tableOf pr oldSchema t) (tableOf pr ?new t) = Inr tc"
        by blast
      with True g show ?thesis
        by (auto simp: diffTable_def h gn Let_def)
    next
      case False
      then show ?thesis
        by (cases "oldSchemaHas pr oldSchema t") (auto simp: diffTable_def h gn Let_def)
    qed
  qed
  from names obtain ns where ns: "allTableNames oldSchema ?new = Inr ns" by blast
  from forEach_returns [of ns "diffTable pr da oldSchema ?new", OF step]
  obtain d' where "forEach (diffTable pr da oldSchema ?new) ns
       \<lparr>diff_add = [], diff_change = [], diff_remove = [], diff_tablesToRebuild = []\<rparr> = Inr d'"
    by blast
  moreover from ver obtain x where "(if \<not> truthy oldSchema then Inr JUndefined
              else andThen (get_prop pr oldSchema ''version'') (\<lambda>_.
                   get_prop pr ?new ''version'')) = Inr x" by blast
  ultimately show ?thesis
    unfolding diff_def by (simp add: ns)
qed

section \<open>The indexer: proofs\<close>

subsection \<open>Objects as association lists\<close>

lemma map_of_upsert: "map_of (upsert ps k v) = (map_of ps)(k \<mapsto> v)"
  by (induction ps) (auto simp: fun_eq_iff)

lemma keys_upsert:
  "map fst (upsert ps k v) = (if k \<in> set (map fst ps) then map fst ps else map fst ps @ [k])"
proof (induction ps)
  case Nil
  then show ?case by simp
next
  case (Cons x ps)
  then show ?case by (cases x) force
qed

lemma distinct_upsert: "distinct (map fst ps) \<Longrightarrow> distinct (map fst (upsert ps k v))"
  by (simp add: keys_upsert)

lemma upsert_entries:
  "(q, w) \<in> set (upsert ps k v) \<Longrightarrow> (q, w) = (k, v) \<or> (q, w) \<in> set ps"
  by (induction ps) (auto split: if_splits)

lemma set_new_Set [simp]: "set (new_Set xs) = set xs"
  by (induction xs) auto

lemma distinct_new_Set [simp]: "distinct (new_Set xs)"
  by (induction xs) auto

subsection \<open>scanArchiveHistoryForUpdates\<close>

lemma latestChange_Cons:
  "latestChange d (u # h) p =
     (case latestChange d h p of
        Some w \<Rightarrow> Some w
      | None \<Rightarrow> if entry_path u = p \<and> anymatch (tablePathPatterns d) (entry_path u)
                then Some u else None)"
  by (auto simp: latestChange_def split: list.splits)

lemma collectUpdate_map_of:
  "map_of (collectUpdate d acc u) p =
     (if entry_path u = p \<and> anymatch (tablePathPatterns d) (entry_path u)
      then Some u else map_of acc p)"
  by (auto simp: collectUpdate_def map_of_upsert)

lemma collect_map_of:
  "map_of (foldl (collectUpdate d) acc h) p =
     (case latestChange d h p of None \<Rightarrow> map_of acc p | Some w \<Rightarrow> Some w)"
proof (induction h arbitrary: acc)
  case Nil
  then show ?case by (simp add: latestChange_def)
next
  case (Cons u h)
  have "map_of (foldl (collectUpdate d) acc (u # h)) p =
        (case latestChange d h p of None \<Rightarrow> map_of (collectUpdate d acc u) p | Some w \<Rightarrow> Some w)"
    using Cons.IH [of "collectUpdate d acc u"] by simp
  then show ?case
    by (auto simp: latestChange_Cons collectUpdate_map_of split: option.splits)
qed

lemma collect_distinct:
  "distinct (map fst acc) \<Longrightarrow> distinct (map fst (foldl (collectUpdate d) acc h))"
  by (induction h arbitrary: acc) (simp_all add: collectUpdate_def distinct_upsert)

lemma collect_paths:
  "\<forall>(q, w) \<in> set acc. entry_path w = q \<Longrightarrow>
   \<forall>(q, w) \<in> set (foldl (collectUpdate d) acc h). entry_path w = q"
proof (induction h arbitrary: acc)
  case Nil
  then show ?case by simp
next
  case (Cons u h)
  have "\<forall>(q, w) \<in> set (collectUpdate d acc u). entry_path w = q"
    using Cons.prems by (auto simp: collectUpdate_def dest: upsert_entries)
  from Cons.IH [OF this] show ?case by simp
qed

lemma latestChange_Some_iff:
  "(\<exists>w. latestChange d h p = Some w) \<longleftrightarrow>
   (\<exists>u \<in> set h. entry_path u = p \<and> anymatch (tablePathPatterns d) p)"
proof -
  have "(\<exists>w. latestChange d h p = Some w) \<longleftrightarrow>
        filter (\<lambda>u. entry_path u = p \<and> anymatch (tablePathPatterns d) (entry_path u)) h \<noteq> []"
    by (simp add: latestChange_def split: list.splits)
  also have "\<dots> \<longleftrightarrow> (\<exists>u \<in> set h. entry_path u = p \<and> anymatch (tablePathPatterns d) p)"
    by (auto simp: filter_empty_conv)
  finally show ?thesis .
qed

lemma scan_result:
  assumes "history a start stop = Inr h"
  shows "scanArchiveHistoryForUpdates d a start stop = Inr (foldl (collectUpdate d) [] h)"
  using assms by (simp add: scanArchiveHistoryForUpdates_def)

lemma scan_distinct_paths:
  assumes "scanArchiveHistoryForUpdates d a start stop = Inr updates"
  shows "distinct (map (\<lambda>(p, u). entry_path u) updates)"
proof -
  from assms obtain h where "updates = foldl (collectUpdate d) [] h"
    by (auto simp: scanArchiveHistoryForUpdates_def andThen_Inr_iff)
  then have d: "distinct (map fst updates)" and p: "\<forall>(q, w) \<in> set updates. entry_path w = q"
    using collect_distinct [of "[]" d h] collect_paths [of "[]" d h] by simp_all
  have eq: "map (\<lambda>(p, u). entry_path u) updates = map fst updates"
    by (rule map_cong [OF refl]) (use p in auto)
  show ?thesis unfolding eq by (rule d)
qed

text \<open>
  C3. Over the history of any window, \<^verbatim>\<open>scanArchiveHistoryForUpdates\<close> returns an
  object whose keys are exactly the paths of the entries that match a table path
  pattern, each once, and that maps each such path to the last of its entries in
  history order; no other entry, and no entry of a path that matches no pattern, is
  among the updates.
\<close>

theorem scanArchiveHistoryForUpdates_latest:
  assumes "history a start stop = Inr h"
  shows "\<exists>updates. scanArchiveHistoryForUpdates d a start stop = Inr updates \<and>
           distinct (map fst updates) \<and>
           set (map fst updates) =
             entry_path ` {u \<in> set h. anymatch (tablePathPatterns d) (entry_path u)} \<and>
           (\<forall>p. map_of updates p = latestChange d h p)"
proof -
  let ?ups = "foldl (collectUpdate d) [] h"
  have m: "\<And>p. map_of ?ups p = latestChange d h p"
  proof -
    fix p show "map_of ?ups p = latestChange d h p"
      by (simp add: collect_map_of split: option.splits)
  qed
  have "set (map fst ?ups) = dom (map_of ?ups)"
    by (simp add: dom_map_of_conv_image_fst)
  also have "\<dots> = {p. \<exists>w. latestChange d h p = Some w}"
    by (auto simp: m)
  also have "\<dots> = entry_path ` {u \<in> set h. anymatch (tablePathPatterns d) (entry_path u)}"
    unfolding latestChange_Some_iff by auto
  finally have k: "set (map fst ?ups) =
      entry_path ` {u \<in> set h. anymatch (tablePathPatterns d) (entry_path u)}" .
  have "distinct (map fst ?ups)"
    using collect_distinct [of "[]" d h] by simp
  with m k scan_result [OF assms, of d] show ?thesis by auto
qed


subsection \<open>One update\<close>


lemma applyUpdate_eq:
  "applyUpdate d a u =
     (case tryUpdate a u (tables d) of
        Inl e \<Rightarrow> (d\<lparr>console := console d @ [failureLine a u e]\<rparr>, None)
      | Inr (ts, res) \<Rightarrow> (d\<lparr>tables := ts\<rparr>, res))"
  by (cases "entry_type u = ''del''")
     (simp_all add: applyUpdate_def tryUpdate_def failureLine_def unindexFile_def
        readAndIndexFile_def split: sum.splits)

lemma applyUpdate_tables: "tables (fst (applyUpdate d a u)) = tablesAfter a u (tables d)"
  by (simp add: applyUpdate_eq tablesAfter_def split: sum.splits prod.splits)

lemma applyUpdate_result: "snd (applyUpdate d a u) = resultOf a u (tables d)"
  by (simp add: applyUpdate_eq resultOf_def split: sum.splits prod.splits)

lemma applyUpdate_frame:
  "isOpen (fst (applyUpdate d a u)) = isOpen d"
  "idx (fst (applyUpdate d a u)) = idx d"
  "metaStore (fst (applyUpdate d a u)) = metaStore d"
  "tablePathPatterns (fst (applyUpdate d a u)) = tablePathPatterns d"
  "tablesToRebuild (fst (applyUpdate d a u)) = tablesToRebuild d"
  "emitted (fst (applyUpdate d a u)) = emitted d"
  by (simp_all add: applyUpdate_eq split: sum.splits prod.splits)

lemma unindex_modifyFirst:
  "(case unindexOnFirstMatch a p ts of Inl e \<Rightarrow> ts | Inr (ts', res) \<Rightarrow> ts') =
   modifyFirst (\<lambda>t. isRecordFile t p)
     (\<lambda>t. case IDB_delete t (url a @ p) of Inl e \<Rightarrow> t | Inr t' \<Rightarrow> t') ts"
  by (induction ts) (auto simp: andThen_def split: sum.splits prod.splits)

lemma index_modifyFirst:
  "(case indexOnFirstMatch a p r ts of Inl e \<Rightarrow> ts | Inr (ts', res) \<Rightarrow> ts') =
   modifyFirst (\<lambda>t. isRecordFile t p)
     (\<lambda>t. case storeRecord a p r t of Inl e \<Rightarrow> t | Inr t' \<Rightarrow> t') ts"
  by (induction ts) (auto simp: andThen_def split: sum.splits prod.splits)

lemma modifyFirst_id: "modifyFirst P (\<lambda>t. t) ts = ts"
  by (induction ts) auto

lemma tablesAfter_modifyFirst:
  "tablesAfter a u ts = modifyFirst (\<lambda>t. isRecordFile t (entry_path u)) (storeStep a u) ts"
proof (cases "entry_type u = ''del''")
  case True
  then have "storeStep a u =
      (\<lambda>t. case IDB_delete t (url a @ entry_path u) of Inl e \<Rightarrow> t | Inr t' \<Rightarrow> t')"
    by (simp add: fun_eq_iff storeStep_def)
  with True show ?thesis
    using unindex_modifyFirst [where a = a and p = "entry_path u" and ts = ts]
    by (simp add: tablesAfter_def tryUpdate_def)
next
  case False
  show ?thesis
  proof (cases "andThen (readFile a (entry_path u)) JSON_parse")
    case (Inl e)
    then have "tryUpdate a u ts = Inl e" and "storeStep a u = (\<lambda>t. t)"
      using False
      by (auto simp: tryUpdate_def readAndIndexFile_try_def storeStep_def andThen_def fun_eq_iff
          split: sum.splits)
    then show ?thesis by (simp add: tablesAfter_def modifyFirst_id)
  next
    case (Inr r)
    then have "tryUpdate a u ts = indexOnFirstMatch a (entry_path u) r ts"
      and "storeStep a u = (\<lambda>t. case storeRecord a (entry_path u) r t of Inl e \<Rightarrow> t | Inr t' \<Rightarrow> t')"
      using False
      by (auto simp: tryUpdate_def readAndIndexFile_try_def storeStep_def andThen_def fun_eq_iff
          split: sum.splits)
    then show ?thesis
      using index_modifyFirst [where a = a and p = "entry_path u" and r = r and ts = ts] by (simp add: tablesAfter_def)
  qed
qed


lemma lookup_upsert: "lookup (upsert ps k v) q = (if q = k then v else lookup ps q)"
  by (simp add: lookup_def map_of_upsert)

lemma stamped_key:
  assumes "set_prop r1 ''_url'' (JStr k) = Inr r2"
    and "set_prop r2 ''_origin'' (JStr origin) = Inr r3"
    and "recordKey r3 = Some k'"
  shows "k' = k"
  using assms by (cases r1) (auto simp: recordKey_def lookup_upsert)

lemma table_rows_same [simp]: "t\<lparr>rows := rows t\<rparr> = t"
  by simp

lemma IDB_delete_rows:
  "IDB_delete (t\<lparr>rows := rws\<rparr>) k =
     (if faulty t k then Inl StoreError else Inr (t\<lparr>rows := rws(k := None)\<rparr>))"
  by (simp add: IDB_delete_def)

lemma IDB_put_rows:
  "IDB_put (t\<lparr>rows := rws\<rparr>) r =
     (case recordKey r of None \<Rightarrow> Inl StoreError
      | Some k \<Rightarrow> if faulty t k then Inl StoreError else Inr (t\<lparr>rows := rws(k \<mapsto> r)\<rparr>))"
  by (simp add: IDB_put_def split: option.splits)

lemma storeRecord_shape:
  "\<exists>w. \<forall>rws. storeRecord a p r (t\<lparr>rows := rws\<rparr>) =
     (case w of Inl e \<Rightarrow> Inl e | Inr v \<Rightarrow> Inr (t\<lparr>rows := rws(url a @ p \<mapsto> v)\<rparr>))"
proof (cases "andThen (case validator t of None \<Rightarrow> Inr r | Some v \<Rightarrow> v r) (\<lambda>r1.
     andThen (set_prop r1 ''_url'' (JStr (url a @ p))) (\<lambda>r2.
     andThen (set_prop r2 ''_origin'' (JStr (url a))) (\<lambda>r3. Inr (r1, r2, r3))))")
  case (Inl e)
  then have "\<forall>rws. storeRecord a p r (t\<lparr>rows := rws\<rparr>) = Inl e"
    by (auto simp: storeRecord_def andThen_def split: sum.splits)
  then show ?thesis by (intro exI [of _ "Inl e"]) simp
next
  case (Inr x)
  then obtain r1 r2 r3 where v: "(case validator t of None \<Rightarrow> Inr r | Some v \<Rightarrow> v r) = Inr r1"
    and s1: "set_prop r1 ''_url'' (JStr (url a @ p)) = Inr r2"
    and s2: "set_prop r2 ''_origin'' (JStr (url a)) = Inr r3"
    by (auto simp: andThen_Inr_iff)
  then have sr: "\<And>rws. storeRecord a p r (t\<lparr>rows := rws\<rparr>) = IDB_put (t\<lparr>rows := rws\<rparr>) r3"
    by (simp add: storeRecord_def)
  show ?thesis
  proof (cases "recordKey r3")
    case None
    then show ?thesis
      by (intro exI [of _ "Inl StoreError"]) (simp add: sr IDB_put_rows)
  next
    case (Some k')
    with stamped_key [OF s1 s2] have k: "recordKey r3 = Some (url a @ p)" by simp
    show ?thesis
    proof (cases "faulty t (url a @ p)")
      case True
      then show ?thesis
        by (intro exI [of _ "Inl StoreError"]) (simp add: sr IDB_put_rows k)
    next
      case False
      then show ?thesis
        by (intro exI [of _ "Inr r3"]) (simp add: sr IDB_put_rows k)
    qed
  qed
qed

lemma storeStep_shape:
  "\<exists>w. \<forall>rws. storeStep a u (t\<lparr>rows := rws\<rparr>) =
     (case w of None \<Rightarrow> t\<lparr>rows := rws\<rparr>
      | Some v \<Rightarrow> t\<lparr>rows := rws(url a @ entry_path u := v)\<rparr>)"
proof (cases "entry_type u = ''del''")
  case True
  show ?thesis
  proof (cases "faulty t (url a @ entry_path u)")
    case f: True
    show ?thesis
      by (intro exI [of _ None]) (simp add: storeStep_def True IDB_delete_rows f)
  next
    case f: False
    show ?thesis
      by (intro exI [of _ "Some None"]) (simp add: storeStep_def True IDB_delete_rows f)
  qed
next
  case False
  show ?thesis
  proof (cases "andThen (readFile a (entry_path u)) JSON_parse")
    case (Inl e)
    then have "\<forall>rws. storeStep a u (t\<lparr>rows := rws\<rparr>) = t\<lparr>rows := rws\<rparr>"
      using False by (auto simp: storeStep_def andThen_def split: sum.splits)
    then show ?thesis by (intro exI [of _ None]) simp
  next
    case (Inr r)
    then have st: "\<And>rws. storeStep a u (t\<lparr>rows := rws\<rparr>) =
        (case storeRecord a (entry_path u) r (t\<lparr>rows := rws\<rparr>) of
           Inl e \<Rightarrow> t\<lparr>rows := rws\<rparr> | Inr t' \<Rightarrow> t')"
      using False by (auto simp: storeStep_def andThen_def split: sum.splits)
    from storeRecord_shape [of a "entry_path u" r t] obtain w where
      w: "\<And>rws. storeRecord a (entry_path u) r (t\<lparr>rows := rws\<rparr>) =
         (case w of Inl e \<Rightarrow> Inl e
          | Inr v \<Rightarrow> Inr (t\<lparr>rows := rws(url a @ entry_path u \<mapsto> v)\<rparr>))"
      by blast
    show ?thesis
    proof (cases w)
      case (Inl e)
      show ?thesis by (intro exI [of _ None]) (simp add: st w Inl)
    next
      case (Inr v)
      show ?thesis by (intro exI [of _ "Some (Some v)"]) (simp add: st w Inr)
    qed
  qed
qed

lemma storeStep_cases:
  obtains "storeStep a u t = t"
  | v where "storeStep a u t = t\<lparr>rows := (rows t)(url a @ entry_path u := v)\<rparr>"
proof -
  from storeStep_shape [of a u t] obtain w where
    "\<And>rws. storeStep a u (t\<lparr>rows := rws\<rparr>) =
       (case w of None \<Rightarrow> t\<lparr>rows := rws\<rparr>
        | Some v \<Rightarrow> t\<lparr>rows := rws(url a @ entry_path u := v)\<rparr>)"
    by blast
  from this [of "rows t"] show ?thesis
    using that by (cases w) simp_all
qed

lemma storeStep_static:
  "isRecordFile (storeStep a u t) = isRecordFile t"
  "name (storeStep a u t) = name t"
  "IDB_clear (storeStep a u t) = IDB_clear t"
  by (rule storeStep_cases [of a u t]; simp add: IDB_clear_def)+

lemma storeStep_idem: "storeStep a u (storeStep a u t) = storeStep a u t"
proof -
  from storeStep_shape [of a u t] obtain w where
    w: "\<And>rws. storeStep a u (t\<lparr>rows := rws\<rparr>) =
       (case w of None \<Rightarrow> t\<lparr>rows := rws\<rparr>
        | Some v \<Rightarrow> t\<lparr>rows := rws(url a @ entry_path u := v)\<rparr>)"
    by blast
  have "storeStep a u t = storeStep a u (t\<lparr>rows := rows t\<rparr>)" by simp
  also have "\<dots> = (case w of None \<Rightarrow> t\<lparr>rows := rows t\<rparr>
        | Some v \<Rightarrow> t\<lparr>rows := (rows t)(url a @ entry_path u := v)\<rparr>)"
    by (rule w)
  finally have s: "storeStep a u t = (case w of None \<Rightarrow> t\<lparr>rows := rows t\<rparr>
        | Some v \<Rightarrow> t\<lparr>rows := (rows t)(url a @ entry_path u := v)\<rparr>)" .
  show ?thesis
    by (cases w) (simp_all add: s w)
qed

lemma storeStep_comm:
  assumes "entry_path u \<noteq> entry_path v"
  shows "storeStep a u (storeStep a v t) = storeStep a v (storeStep a u t)"
proof -
  from storeStep_shape [of a u t] obtain wu where
    wu: "\<And>rws. storeStep a u (t\<lparr>rows := rws\<rparr>) =
       (case wu of None \<Rightarrow> t\<lparr>rows := rws\<rparr>
        | Some x \<Rightarrow> t\<lparr>rows := rws(url a @ entry_path u := x)\<rparr>)"
    by blast
  from storeStep_shape [of a v t] obtain wv where
    wv: "\<And>rws. storeStep a v (t\<lparr>rows := rws\<rparr>) =
       (case wv of None \<Rightarrow> t\<lparr>rows := rws\<rparr>
        | Some x \<Rightarrow> t\<lparr>rows := rws(url a @ entry_path v := x)\<rparr>)"
    by blast
  have su: "storeStep a u t = (case wu of None \<Rightarrow> t
        | Some x \<Rightarrow> t\<lparr>rows := (rows t)(url a @ entry_path u := x)\<rparr>)"
    using wu [of "rows t"] by (cases wu) simp_all
  have sv: "storeStep a v t = (case wv of None \<Rightarrow> t
        | Some x \<Rightarrow> t\<lparr>rows := (rows t)(url a @ entry_path v := x)\<rparr>)"
    using wv [of "rows t"] by (cases wv) simp_all
  have ne: "url a @ entry_path u \<noteq> url a @ entry_path v"
    using assms by simp
  show ?thesis
  proof (cases wu)
    case None
    then have "\<And>s. storeStep a u (t\<lparr>rows := s\<rparr>) = t\<lparr>rows := s\<rparr>" by (simp add: wu)
    moreover from None have "storeStep a u t = t" by (simp add: su)
    ultimately show ?thesis by (cases wv) (simp_all add: sv)
  next
    case u: (Some x)
    show ?thesis
    proof (cases wv)
      case None
      then have "\<And>s. storeStep a v (t\<lparr>rows := s\<rparr>) = t\<lparr>rows := s\<rparr>" by (simp add: wv)
      moreover from None have "storeStep a v t = t" by (simp add: sv)
      ultimately show ?thesis by (simp add: su u)
    next
      case v: (Some y)
      show ?thesis
        using ne by (simp add: su sv u v wu wv fun_upd_twist)
    qed
  qed
qed

lemma modifyFirst_idem:
  assumes "\<And>t. P (g t) = P t" and "\<And>t. g (g t) = g t"
  shows "modifyFirst P g (modifyFirst P g ts) = modifyFirst P g ts"
  by (induction ts) (simp_all add: assms)

lemma modifyFirst_comm:
  assumes "\<And>t. P (h t) = P t" and "\<And>t. Q (g t) = Q t" and "\<And>t. g (h t) = h (g t)"
  shows "modifyFirst P g (modifyFirst Q h ts) = modifyFirst Q h (modifyFirst P g ts)"
  by (induction ts) (simp_all add: assms)

lemma tablesAfter_idem: "tablesAfter a u (tablesAfter a u ts) = tablesAfter a u ts"
  unfolding tablesAfter_modifyFirst
  by (rule modifyFirst_idem) (simp_all add: storeStep_static storeStep_idem)

lemma tablesAfter_comm:
  assumes "entry_path u \<noteq> entry_path v"
  shows "tablesAfter a u (tablesAfter a v ts) = tablesAfter a v (tablesAfter a u ts)"
  unfolding tablesAfter_modifyFirst
  by (rule modifyFirst_comm) (simp_all add: storeStep_static storeStep_comm [OF assms])


subsection \<open>Batches\<close>

lemma applyUpdates_Cons:
  "applyUpdates d a ((p, u) # ups) =
     (fst (applyUpdates (fst (applyUpdate d a u)) a ups),
      snd (applyUpdate d a u) # snd (applyUpdates (fst (applyUpdate d a u)) a ups))"
  by (simp split: prod.splits)

lemma applyUpdates_tables:
  "tables (fst (applyUpdates d a ups)) = foldl (\<lambda>ts (p, u). tablesAfter a u ts) (tables d) ups"
proof (induction ups arbitrary: d)
  case Nil
  then show ?case by simp
next
  case (Cons pu ups)
  obtain p u where pu: "pu = (p, u)" by (cases pu)
  show ?case
    unfolding pu applyUpdates_Cons
    by (simp add: Cons.IH applyUpdate_tables)
qed

lemma applyUpdates_frame:
  "isOpen (fst (applyUpdates d a ups)) = isOpen d \<and>
   idx (fst (applyUpdates d a ups)) = idx d \<and>
   metaStore (fst (applyUpdates d a ups)) = metaStore d \<and>
   tablePathPatterns (fst (applyUpdates d a ups)) = tablePathPatterns d \<and>
   tablesToRebuild (fst (applyUpdates d a ups)) = tablesToRebuild d \<and>
   emitted (fst (applyUpdates d a ups)) = emitted d"
proof (induction ups arbitrary: d)
  case Nil
  then show ?case by simp
next
  case (Cons pu ups)
  obtain p u where pu: "pu = (p, u)" by (cases pu)
  show ?case
    unfolding pu applyUpdates_Cons
    by (simp add: Cons.IH applyUpdate_frame)
qed

lemma applyUpdates_length: "length (snd (applyUpdates d a ups)) = length ups"
proof (induction ups arbitrary: d)
  case Nil
  then show ?case by simp
next
  case (Cons pu ups)
  obtain p u where pu: "pu = (p, u)" by (cases pu)
  show ?case
    unfolding pu applyUpdates_Cons by (simp add: Cons.IH)
qed

text \<open>Tables that differ in their stored rows only.\<close>

lemma IDB_clear_eqD:
  assumes "IDB_clear t = IDB_clear t'"
  shows "t' = t\<lparr>rows := rows t'\<rparr>"
proof (rule table.equality)
  show "name t' = name (t\<lparr>rows := rows t'\<rparr>)"
    using arg_cong [OF assms, of name] by (simp add: IDB_clear_def)
  show "isRecordFile t' = isRecordFile (t\<lparr>rows := rows t'\<rparr>)"
    using arg_cong [OF assms, of isRecordFile] by (simp add: IDB_clear_def)
  show "validator t' = validator (t\<lparr>rows := rows t'\<rparr>)"
    using arg_cong [OF assms, of validator] by (simp add: IDB_clear_def)
  show "faulty t' = faulty (t\<lparr>rows := rows t'\<rparr>)"
    using arg_cong [OF assms, of faulty] by (simp add: IDB_clear_def)
qed simp_all

lemma storeRecord_outcome:
  assumes "IDB_clear t = IDB_clear t'"
  shows "map_sum id (\<lambda>x. ()) (storeRecord a p r t) = map_sum id (\<lambda>x. ()) (storeRecord a p r t')"
proof -
  from storeRecord_shape [of a p r t] obtain w where
    w: "\<And>rws. storeRecord a p r (t\<lparr>rows := rws\<rparr>) =
         (case w of Inl e \<Rightarrow> Inl e | Inr v \<Rightarrow> Inr (t\<lparr>rows := rws(url a @ p \<mapsto> v)\<rparr>))"
    by blast
  have "storeRecord a p r t = storeRecord a p r (t\<lparr>rows := rows t\<rparr>)" by simp
  moreover have "storeRecord a p r t' = storeRecord a p r (t\<lparr>rows := rows t'\<rparr>)"
    using IDB_clear_eqD [OF assms] by simp
  ultimately show ?thesis
    unfolding w by (cases w) simp_all
qed

lemma IDB_delete_outcome:
  assumes "IDB_clear t = IDB_clear t'"
  shows "map_sum id (\<lambda>x. ()) (IDB_delete t k) = map_sum id (\<lambda>x. ()) (IDB_delete t' k)"
proof -
  have "faulty t = faulty t'"
    using arg_cong [OF assms, of faulty] by (simp add: IDB_clear_def)
  then show ?thesis by (simp add: IDB_delete_def)
qed

lemma unindex_outcome:
  "map IDB_clear ts = map IDB_clear ts' \<Longrightarrow>
   map_sum id snd (unindexOnFirstMatch a p ts) = map_sum id snd (unindexOnFirstMatch a p ts')"
proof (induction ts arbitrary: ts')
  case Nil
  then show ?case by simp
next
  case (Cons t ts)
  from Cons.prems obtain t' ts1 where ts': "ts' = t' # ts1" and c: "IDB_clear t = IDB_clear t'"
    and r: "map IDB_clear ts = map IDB_clear ts1"
    by (cases ts') auto
  have m: "isRecordFile t = isRecordFile t'" and n: "name t = name t'"
    using arg_cong [OF c, of isRecordFile] arg_cong [OF c, of name] by (simp_all add: IDB_clear_def)
  show ?case
  proof (cases "isRecordFile t p")
    case True
    then show ?thesis
      using IDB_delete_outcome [OF c, of "url a @ p"] m n
      by (cases "IDB_delete t (url a @ p)"; cases "IDB_delete t' (url a @ p)") (simp_all add: ts')
  next
    case False
    then show ?thesis
      using Cons.IH [OF r] m
      by (cases "unindexOnFirstMatch a p ts"; cases "unindexOnFirstMatch a p ts1")
         (auto simp: ts')
  qed
qed

lemma index_outcome:
  "map IDB_clear ts = map IDB_clear ts' \<Longrightarrow>
   map_sum id snd (indexOnFirstMatch a p rc ts) = map_sum id snd (indexOnFirstMatch a p rc ts')"
proof (induction ts arbitrary: ts')
  case Nil
  then show ?case by simp
next
  case (Cons t ts)
  from Cons.prems obtain t' ts1 where ts': "ts' = t' # ts1" and c: "IDB_clear t = IDB_clear t'"
    and r: "map IDB_clear ts = map IDB_clear ts1"
    by (cases ts') auto
  have m: "isRecordFile t = isRecordFile t'" and n: "name t = name t'"
    using arg_cong [OF c, of isRecordFile] arg_cong [OF c, of name] by (simp_all add: IDB_clear_def)
  show ?case
  proof (cases "isRecordFile t p")
    case True
    then show ?thesis
      using storeRecord_outcome [OF c, of a p rc] m n
      by (cases "storeRecord a p rc t"; cases "storeRecord a p rc t'") (simp_all add: ts')
  next
    case False
    then show ?thesis
      using Cons.IH [OF r] m
      by (cases "indexOnFirstMatch a p rc ts"; cases "indexOnFirstMatch a p rc ts1")
         (auto simp: ts')
  qed
qed

lemma tryUpdate_outcome:
  assumes "map IDB_clear ts = map IDB_clear ts'"
  shows "map_sum id snd (tryUpdate a u ts) = map_sum id snd (tryUpdate a u ts')"
proof (cases "entry_type u = ''del''")
  case True
  then show ?thesis using unindex_outcome [OF assms] by (simp add: tryUpdate_def)
next
  case False
  show ?thesis
  proof (cases "andThen (readFile a (entry_path u)) JSON_parse")
    case (Inl e)
    then have "\<And>xs. tryUpdate a u xs = Inl e"
      using False
      by (auto simp: tryUpdate_def readAndIndexFile_try_def andThen_def split: sum.splits)
    then show ?thesis by simp
  next
    case (Inr r)
    then have "\<And>xs. tryUpdate a u xs = indexOnFirstMatch a (entry_path u) r xs"
      using False
      by (auto simp: tryUpdate_def readAndIndexFile_try_def andThen_def split: sum.splits)
    then show ?thesis using index_outcome [OF assms] by simp
  qed
qed

lemma resultOf_static:
  assumes "map IDB_clear ts = map IDB_clear ts'"
  shows "resultOf a u ts = resultOf a u ts'"
  using tryUpdate_outcome [OF assms, of a u]
  by (cases "tryUpdate a u ts"; cases "tryUpdate a u ts'") (auto simp: resultOf_def)

lemma failure_static:
  assumes "map IDB_clear ts = map IDB_clear ts'"
  shows "isl (tryUpdate a u ts) = isl (tryUpdate a u ts')"
  using tryUpdate_outcome [OF assms, of a u]
  by (cases "tryUpdate a u ts"; cases "tryUpdate a u ts'") auto

lemma modifyFirst_static:
  assumes "\<And>t. IDB_clear (g t) = IDB_clear t"
  shows "map IDB_clear (modifyFirst P g ts) = map IDB_clear ts"
  by (induction ts) (simp_all add: assms)

lemma tablesAfter_static: "map IDB_clear (tablesAfter a u ts) = map IDB_clear ts"
  unfolding tablesAfter_modifyFirst by (rule modifyFirst_static) (simp add: storeStep_static)

lemma run_static:
  "map IDB_clear (foldl (\<lambda>ts (p, u). tablesAfter a u ts) ts ups) = map IDB_clear ts"
  by (induction ups arbitrary: ts) (auto simp: tablesAfter_static)

lemma applyUpdates_results:
  "snd (applyUpdates d a ups) = map (\<lambda>(p, u). resultOf a u (tables d)) ups"
proof (induction ups arbitrary: d)
  case Nil
  then show ?case by simp
next
  case (Cons pu ups)
  obtain p u where pu: "pu = (p, u)" by (cases pu)
  have "\<And>v. resultOf a v (tables (fst (applyUpdate d a u))) = resultOf a v (tables d)"
    by (rule resultOf_static) (simp add: applyUpdate_tables tablesAfter_static)
  then show ?case
    unfolding pu applyUpdates_Cons
    by (simp add: Cons.IH applyUpdate_result)
qed

lemma tablesAfter_failed:
  assumes "isl (tryUpdate a u ts)"
  shows "tablesAfter a u ts = ts" and "resultOf a u ts = None"
  using assms by (cases "tryUpdate a u ts"; simp add: tablesAfter_def resultOf_def)+

lemma run_append:
  "foldl (\<lambda>ts (p, u). tablesAfter a u ts) ts (xs @ ys) =
   foldl (\<lambda>ts (p, u). tablesAfter a u ts) (foldl (\<lambda>ts (p, u). tablesAfter a u ts) ts xs) ys"
  by simp

lemma run_skip_failed:
  assumes "isl (tryUpdate a u ts)"
  shows "foldl (\<lambda>ts (p, u). tablesAfter a u ts) ts (xs @ (p, u) # ys) =
         foldl (\<lambda>ts (p, u). tablesAfter a u ts) ts (xs @ ys)"
proof -
  let ?mid = "foldl (\<lambda>ts (p, u). tablesAfter a u ts) ts xs"
  have "isl (tryUpdate a u ?mid)"
    using assms failure_static [OF run_static, of a u a ts xs] by simp
  then have "tablesAfter a u ?mid = ?mid" by (rule tablesAfter_failed)
  then show ?thesis by simp
qed

lemma run_comm:
  assumes "\<forall>(q, v) \<in> set ups. entry_path v \<noteq> entry_path u"
  shows "tablesAfter a u (foldl (\<lambda>ts (p, u). tablesAfter a u ts) ts ups) =
         foldl (\<lambda>ts (p, u). tablesAfter a u ts) (tablesAfter a u ts) ups"
  using assms
proof (induction ups arbitrary: ts)
  case Nil
  then show ?case by simp
next
  case (Cons qv ups)
  obtain q v where qv: "qv = (q, v)" by (cases qv)
  from Cons.prems have ne: "entry_path u \<noteq> entry_path v"
    and rest: "\<forall>(q, v) \<in> set ups. entry_path v \<noteq> entry_path u"
    by (auto simp: qv)
  show ?case
    using Cons.IH [OF rest, of "tablesAfter a v ts"] tablesAfter_comm [OF ne, of a ts]
    by (simp add: qv)
qed

lemma run_idem:
  assumes "distinct (map (\<lambda>(p, u). entry_path u) ups)"
  shows "foldl (\<lambda>ts (p, u). tablesAfter a u ts) (foldl (\<lambda>ts (p, u). tablesAfter a u ts) ts ups) ups =
         foldl (\<lambda>ts (p, u). tablesAfter a u ts) ts ups"
  using assms
proof (induction ups arbitrary: ts)
  case Nil
  then show ?case by simp
next
  case (Cons pu ups)
  obtain p u where pu: "pu = (p, u)" by (cases pu)
  from Cons.prems have others: "\<forall>(q, v) \<in> set ups. entry_path v \<noteq> entry_path u"
    and d: "distinct (map (\<lambda>(p, u). entry_path u) ups)"
    by (force simp: pu)+
  let ?run = "foldl (\<lambda>ts (p, u). tablesAfter a u ts)"
  have "?run (?run ts ((p, u) # ups)) ((p, u) # ups) =
        ?run (tablesAfter a u (?run (tablesAfter a u ts) ups)) ups"
    by simp
  also have "\<dots> = ?run (?run (tablesAfter a u (tablesAfter a u ts)) ups) ups"
    by (simp only: run_comm [OF others])
  also have "\<dots> = ?run (?run (tablesAfter a u ts) ups) ups"
    by (simp only: tablesAfter_idem)
  also have "\<dots> = ?run (tablesAfter a u ts) ups"
    by (rule Cons.IH [OF d])
  finally show ?case by (simp add: pu)
qed


subsection \<open>What a batch stores\<close>

text \<open>
  In both functions the loop over \<^verbatim>\<open>db.tables\<close> ends at the first table that
  takes the path: the put or the delete goes to that table, and the result is its name.
\<close>

lemma indexOnFirstMatch_at:
  "firstMatch ts p i \<Longrightarrow>
   indexOnFirstMatch a p r ts =
     andThen (storeRecord a p r (ts ! i)) (\<lambda>t'. Inr (ts[i := t'], Some (name (ts ! i))))"
proof (induction ts arbitrary: i)
  case Nil
  then show ?case by (simp add: firstMatch_def)
next
  case (Cons t ts)
  show ?case
  proof (cases i)
    case 0
    with Cons.prems show ?thesis by (simp add: firstMatch_def)
  next
    case (Suc n)
    from Cons.prems have nm: "\<not> isRecordFile t p"
      unfolding firstMatch_def Suc by (metis nth_Cons_0 zero_less_Suc)
    from Cons.prems have fm: "firstMatch ts p n"
      unfolding firstMatch_def Suc by (metis Suc_less_eq length_Cons nth_Cons_Suc)
    show ?thesis
      using Cons.IH [OF fm] nm Suc by (cases "storeRecord a p r (ts ! n)") simp_all
  qed
qed

lemma unindexOnFirstMatch_at:
  "firstMatch ts p i \<Longrightarrow>
   unindexOnFirstMatch a p ts =
     andThen (IDB_delete (ts ! i) (url a @ p))
       (\<lambda>t'. Inr (ts[i := t'], Some (name (ts ! i))))"
proof (induction ts arbitrary: i)
  case Nil
  then show ?case by (simp add: firstMatch_def)
next
  case (Cons t ts)
  show ?case
  proof (cases i)
    case 0
    with Cons.prems show ?thesis by (simp add: firstMatch_def)
  next
    case (Suc n)
    from Cons.prems have nm: "\<not> isRecordFile t p"
      unfolding firstMatch_def Suc by (metis nth_Cons_0 zero_less_Suc)
    from Cons.prems have fm: "firstMatch ts p n"
      unfolding firstMatch_def Suc by (metis Suc_less_eq length_Cons nth_Cons_Suc)
    show ?thesis
      using Cons.IH [OF fm] nm Suc by (cases "IDB_delete (ts ! n) (url a @ p)") simp_all
  qed
qed

lemma storeRecord_valid:
  assumes "validated t r = Inr (JObj i ps)" and "\<not> faulty t (url a @ p)"
  shows "storeRecord a p r t = Inr (t\<lparr>rows := (rows t)(url a @ p \<mapsto> stamped a p i ps)\<rparr>)"
proof -
  have v: "(case validator t of None \<Rightarrow> Inr r | Some f \<Rightarrow> f r) = Inr (JObj i ps)"
    using assms(1) by (simp add: validated_def)
  show ?thesis
    using assms(2)
    by (simp add: storeRecord_def v IDB_put_def recordKey_def lookup_upsert stamped_def)
qed

lemma tryUpdate_validPut:
  assumes "firstMatch ts (entry_path u) i" and "validPut a (ts ! i) u n ps"
  shows "tryUpdate a u ts =
    Inr (ts[i := (ts ! i)\<lparr>rows := (rows (ts ! i))
             (url a @ entry_path u \<mapsto> stamped a (entry_path u) n ps)\<rparr>],
         Some (name (ts ! i)))"
proof -
  from assms(2) obtain r where t: "entry_type u \<noteq> ''del''"
    and rf: "readFile a (entry_path u) = Inr (Json r)"
    and v: "validated (ts ! i) r = Inr (JObj n ps)"
    and f: "\<not> faulty (ts ! i) (url a @ entry_path u)"
    by (auto simp: validPut_def split: sum.splits fileText.splits)
  show ?thesis
    by (simp add: tryUpdate_def t readAndIndexFile_try_def rf
        indexOnFirstMatch_at [OF assms(1)] storeRecord_valid [OF v f])
qed

lemma tryUpdate_validDelete:
  assumes "firstMatch ts (entry_path u) i" and "validDelete a (ts ! i) u"
  shows "tryUpdate a u ts =
    Inr (ts[i := (ts ! i)\<lparr>rows := (rows (ts ! i))(url a @ entry_path u := None)\<rparr>],
         Some (name (ts ! i)))"
  using assms(2)
  by (simp add: tryUpdate_def validDelete_def unindexOnFirstMatch_at [OF assms(1)]
      IDB_delete_def)

lemma storeStep_other_key:
  "k \<noteq> url a @ entry_path u \<Longrightarrow> rows (storeStep a u t) k = rows t k"
  by (rule storeStep_cases [of a u t]) simp_all

lemma modifyFirst_length [simp]: "length (modifyFirst P g ts) = length ts"
  by (induction ts) simp_all

lemma modifyFirst_rows:
  assumes "\<And>t. rows (g t) k = rows t k"
  shows "j < length ts \<Longrightarrow> rows (modifyFirst P g ts ! j) k = rows (ts ! j) k"
proof (induction ts arbitrary: j)
  case Nil
  then show ?case by simp
next
  case (Cons t ts)
  then show ?case by (cases j) (simp_all add: assms)
qed

lemma modifyFirst_others:
  assumes "firstMatch ts p i" and "j < length ts" and "j \<noteq> i"
  shows "modifyFirst (\<lambda>t. isRecordFile t p) g ts ! j = ts ! j"
  using assms
proof (induction ts arbitrary: i j)
  case Nil
  then show ?case by simp
next
  case (Cons t ts)
  show ?case
  proof (cases i)
    case 0
    with Cons.prems show ?thesis by (cases j) (simp_all add: firstMatch_def)
  next
    case (Suc n)
    from Cons.prems(1) have nm: "\<not> isRecordFile t p"
      unfolding firstMatch_def Suc by (metis nth_Cons_0 zero_less_Suc)
    from Cons.prems(1) have fm: "firstMatch ts p n"
      unfolding firstMatch_def Suc by (metis Suc_less_eq length_Cons nth_Cons_Suc)
    show ?thesis
    proof (cases j)
      case 0
      with nm show ?thesis by simp
    next
      case j: (Suc m)
      with Cons.prems Suc have "m < length ts" "m \<noteq> n" by simp_all
      from Cons.IH [OF fm this] nm j show ?thesis by simp
    qed
  qed
qed

lemma tablesAfter_length [simp]: "length (tablesAfter a u ts) = length ts"
  by (simp add: tablesAfter_modifyFirst)

lemma tablesAfter_other_key:
  assumes "entry_path u \<noteq> q" and "j < length ts"
  shows "rows (tablesAfter a u ts ! j) (url a @ q) = rows (ts ! j) (url a @ q)"
  unfolding tablesAfter_modifyFirst
  using assms(1) by (intro modifyFirst_rows [OF _ assms(2)] storeStep_other_key) simp

lemma tablesAfter_other_table:
  assumes "firstMatch ts (entry_path u) i" and "j < length ts" and "j \<noteq> i"
  shows "tablesAfter a u ts ! j = ts ! j"
  unfolding tablesAfter_modifyFirst by (rule modifyFirst_others [OF assms])

lemma run_length [simp]:
  "length (foldl (\<lambda>ts (p, u). tablesAfter a u ts) ts ups) = length ts"
  by (induction ups arbitrary: ts) auto

lemma run_other_keys:
  assumes "\<forall>(p, u) \<in> set ups. entry_path u \<noteq> q" and "j < length ts"
  shows "rows (foldl (\<lambda>ts (p, u). tablesAfter a u ts) ts ups ! j) (url a @ q) =
         rows (ts ! j) (url a @ q)"
  using assms
proof (induction ups arbitrary: ts)
  case Nil
  then show ?case by simp
next
  case (Cons pu ups)
  obtain p u where pu: "pu = (p, u)" by (cases pu)
  from Cons.prems have ne: "entry_path u \<noteq> q"
    and rest: "\<forall>(p, u) \<in> set ups. entry_path u \<noteq> q"
    by (auto simp: pu)
  have "j < length (tablesAfter a u ts)" using Cons.prems(2) by simp
  from Cons.IH [OF rest this] tablesAfter_other_key [OF ne Cons.prems(2), of a]
  show ?case by (simp add: pu)
qed

lemma run_cell:
  assumes "distinct (map (\<lambda>(p, u). entry_path u) ups)" and "(q, v) \<in> set ups"
    and "j < length ts"
  shows "rows (foldl (\<lambda>ts (p, u). tablesAfter a u ts) ts ups ! j) (url a @ entry_path v) =
         rows (tablesAfter a v ts ! j) (url a @ entry_path v)"
proof -
  let ?run = "foldl (\<lambda>ts (p, u). tablesAfter a u ts)"
  from assms(2) obtain xs ys where ups: "ups = xs @ (q, v) # ys"
    by (auto dest: split_list)
  from assms(1) have ox: "\<forall>(p, u) \<in> set xs. entry_path u \<noteq> entry_path v"
    and oy: "\<forall>(p, u) \<in> set ys. entry_path u \<noteq> entry_path v"
    unfolding ups by force+
  have "?run ts ups = ?run (tablesAfter a v (?run ts xs)) ys" by (simp add: ups)
  also have "\<dots> = ?run (?run (tablesAfter a v ts) xs) ys"
    by (simp only: run_comm [OF ox])
  finally have e: "?run ts ups = ?run (?run (tablesAfter a v ts) xs) ys" .
  have "rows (?run ts ups ! j) (url a @ entry_path v) =
        rows (?run (tablesAfter a v ts) xs ! j) (url a @ entry_path v)"
    unfolding e using assms(3) by (intro run_other_keys [OF oy]) simp
  also have "\<dots> = rows (tablesAfter a v ts ! j) (url a @ entry_path v)"
    using assms(3) by (intro run_other_keys [OF ox]) simp
  finally show ?thesis .
qed

lemma failures_static:
  assumes "map IDB_clear ts = map IDB_clear ts'"
  shows "failures a ts ups = failures a ts' ups"
proof -
  have "(case tryUpdate a u ts of Inl e \<Rightarrow> [failureLine a u e] | Inr x \<Rightarrow> []) =
        (case tryUpdate a u ts' of Inl e \<Rightarrow> [failureLine a u e] | Inr x \<Rightarrow> [])" for u
    using tryUpdate_outcome [OF assms, of a u]
    by (cases "tryUpdate a u ts"; cases "tryUpdate a u ts'") auto
  then show ?thesis by (simp add: failures_def)
qed

lemma applyUpdates_console:
  "console (fst (applyUpdates d a ups)) = console d @ failures a (tables d) ups"
proof (induction ups arbitrary: d)
  case Nil
  then show ?case by (simp add: failures_def)
next
  case (Cons pu ups)
  obtain p u where pu: "pu = (p, u)" by (cases pu)
  have s: "failures a (tables (fst (applyUpdate d a u))) ups = failures a (tables d) ups"
    by (rule failures_static) (simp add: applyUpdate_tables tablesAfter_static)
  have c: "console (fst (applyUpdate d a u)) =
           console d @ (case tryUpdate a u (tables d) of
                          Inl e \<Rightarrow> [failureLine a u e] | Inr x \<Rightarrow> [])"
    by (simp add: applyUpdate_eq split: sum.splits prod.splits)
  show ?case
    unfolding pu applyUpdates_Cons
    by (simp add: Cons.IH s c) (simp add: failures_def)
qed

lemma batch_log:
  "\<exists>lines. console (fst (applyUpdates d a ups)) = console d @ lines \<and>
     mset lines = mset (failures a (tables d) ups)"
  by (simp add: applyUpdates_console)

lemma failure_logged:
  assumes "tryUpdate a u ts = Inl e" and "(p, u) \<in> set ups"
  shows "failureLine a u e \<in> set (failures a ts ups)"
  using assms by (force simp: failures_def)

lemma batch_static:
  "map IDB_clear (tables (fst (applyUpdates d a ups))) = map IDB_clear (tables d)"
  by (simp add: applyUpdates_tables run_static)

lemma batch_failed_rows:
  assumes "distinct (map (\<lambda>(q, v). entry_path v) ups)" and "(p, u) \<in> set ups"
    and "isl (tryUpdate a u (tables d))" and "j < length (tables d)"
  shows "rows (tables (fst (applyUpdates d a ups)) ! j) (url a @ entry_path u) =
         rows (tables d ! j) (url a @ entry_path u)"
  unfolding applyUpdates_tables run_cell [OF assms(1,2,4)]
  by (simp add: tablesAfter_failed [OF assms(3)])

lemma batch_result:
  assumes "n < length ups"
  shows "snd (applyUpdates d a ups) ! n = resultOf a (snd (ups ! n)) (tables d)"
  using assms by (simp add: applyUpdates_results split: prod.splits)

lemma batch_valid:
  assumes "distinct (map (\<lambda>(q, v). entry_path v) ups)" and "n < length ups"
    and "firstMatch (tables d) (entry_path (snd (ups ! n))) i"
  shows "(\<forall>k ps. validPut a (tables d ! i) (snd (ups ! n)) k ps \<longrightarrow>
            snd (applyUpdates d a ups) ! n = Some (name (tables d ! i)) \<and>
            rows (tables (fst (applyUpdates d a ups)) ! i) (url a @ entry_path (snd (ups ! n))) =
              Some (stamped a (entry_path (snd (ups ! n))) k ps)) \<and>
         (validDelete a (tables d ! i) (snd (ups ! n)) \<longrightarrow>
            snd (applyUpdates d a ups) ! n = Some (name (tables d ! i)) \<and>
            rows (tables (fst (applyUpdates d a ups)) ! i) (url a @ entry_path (snd (ups ! n))) =
              None) \<and>
         (\<forall>j<length (tables d). j \<noteq> i \<longrightarrow>
            rows (tables (fst (applyUpdates d a ups)) ! j) (url a @ entry_path (snd (ups ! n))) =
              rows (tables d ! j) (url a @ entry_path (snd (ups ! n))))"
proof -
  let ?v = "snd (ups ! n)"
  let ?ts = "tables d"
  have m: "(fst (ups ! n), ?v) \<in> set ups" using assms(2) by simp
  have i: "i < length ?ts" using assms(3) by (simp add: firstMatch_def)
  have cell: "rows (tables (fst (applyUpdates d a ups)) ! j) (url a @ entry_path ?v) =
              rows (tablesAfter a ?v ?ts ! j) (url a @ entry_path ?v)" if "j < length ?ts" for j
    unfolding applyUpdates_tables by (rule run_cell [OF assms(1) m that])
  have put: "snd (applyUpdates d a ups) ! n = Some (name (?ts ! i)) \<and>
            rows (tables (fst (applyUpdates d a ups)) ! i) (url a @ entry_path ?v) =
              Some (stamped a (entry_path ?v) k ps)"
    if "validPut a (?ts ! i) ?v k ps" for k ps
    using tryUpdate_validPut [OF assms(3) that] i
    by (simp add: cell batch_result [OF assms(2)] resultOf_def tablesAfter_def)
  have del: "snd (applyUpdates d a ups) ! n = Some (name (?ts ! i)) \<and>
            rows (tables (fst (applyUpdates d a ups)) ! i) (url a @ entry_path ?v) = None"
    if "validDelete a (?ts ! i) ?v"
    using tryUpdate_validDelete [OF assms(3) that] i
    by (simp add: cell batch_result [OF assms(2)] resultOf_def tablesAfter_def)
  have oth: "rows (tables (fst (applyUpdates d a ups)) ! j) (url a @ entry_path ?v) =
              rows (?ts ! j) (url a @ entry_path ?v)" if "j < length ?ts" "j \<noteq> i" for j
    by (simp add: cell [OF that(1)] tablesAfter_other_table [OF assms(3) that])
  from put del oth show ?thesis by blast
qed


subsection \<open>The scenario, evaluated\<close>


lemma alice_simps [simp]:
  "url alice = ''dat://alice''"
  "getInfo alice = Inr \<lparr>info_version = 5, info_isOwner = True\<rparr>"
  "readFile alice = alice_files"
  by (simp_all add: alice_def)

lemma alice_history:
  "history alice (Suc 0) 6 = Inr alice_log"
  by (simp add: alice_def alice_log_def)

lemma isPostFile_simps [simp]:
  "isPostFile ''/posts/a.json''" "isPostFile ''/posts/b.json''" "\<not> isPostFile ''/notes.txt''"
  by (simp_all add: isPostFile_def)

lemma alice_scan:
  "scanArchiveHistoryForUpdates fresh_db alice (Suc 0) 6 = Inr alice_updates"
  by (simp add: scanArchiveHistoryForUpdates_def alice_history)
     (simp add: alice_log_def alice_updates_def collectUpdate_def anymatch_def fresh_db_def)

lemma tryUpdate_a:
  "tryUpdate alice \<lparr>entry_path = ''/posts/a.json'', entry_type = ''put'', entry_version = v\<rparr>
     [posts_table] = Inl ValidationError"
  by (simp add: tryUpdate_def readAndIndexFile_try_def alice_files_def posts_table_def
      storeRecord_def requireTitle_def lookup_def get_prop_def objectRealm_def Object_prototype_def)

lemma tryUpdate_b:
  "tryUpdate alice \<lparr>entry_path = ''/posts/b.json'', entry_type = ''put'', entry_version = v\<rparr>
     [posts_table] = Inr ([posts_indexed], Some ''posts'')"
  by (simp add: tryUpdate_def readAndIndexFile_try_def alice_files_def posts_table_def
      storeRecord_def requireTitle_def lookup_def get_prop_def objectRealm_def Object_prototype_def IDB_put_def recordKey_def
      posts_indexed_def post_b_def)

lemma alice_apply:
  "applyUpdates fresh_db alice alice_updates =
     (fresh_db\<lparr>tables := [posts_indexed],
        console := [FailedToIndex ''dat://alice/posts/a.json'' ValidationError]\<rparr>,
      [None, Some ''posts''])"
  by (simp add: alice_updates_def applyUpdate_eq tryUpdate_a tryUpdate_b failureLine_def
      fresh_db_def)

lemma alice_pass: "indexArchive fresh_db alice = (indexed_db, Returned)"
proof -
  have v: "indexedVersion fresh_db ''dat://alice'' = 0"
    by (simp add: indexedVersion_def IDB_get_def fresh_db_def)
  have o: "isOpen fresh_db" "idx fresh_db" by (simp_all add: fresh_db_def)
  show ?thesis
    by (simp add: indexArchive_def o v alice_scan alice_apply emitUpdates_def updatedTables_def
        IDB_update_def)
       (simp add: fresh_db_def indexed_db_def)
qed


text \<open>The scan of the scenario, as an instance of the theorem on the scan.\<close>

theorem scanArchiveHistoryForUpdates_latest_witness:
  "history alice 1 6 = Inr alice_log \<and>
   (\<exists>updates. scanArchiveHistoryForUpdates fresh_db alice 1 6 = Inr updates \<and>
      distinct (map fst updates) \<and>
      set (map fst updates) =
        entry_path ` {u \<in> set alice_log. anymatch (tablePathPatterns fresh_db) (entry_path u)} \<and>
      (\<forall>p. map_of updates p = latestChange fresh_db alice_log p)) \<and>
   scanArchiveHistoryForUpdates fresh_db alice 1 6 = Inr alice_updates \<and>
   latestChange fresh_db alice_log ''/posts/b.json'' =
     Some \<lparr>entry_path = ''/posts/b.json'', entry_type = ''put'', entry_version = 5\<rparr> \<and>
   latestChange fresh_db alice_log ''/notes.txt'' = None"
proof -
  have h: "history alice 1 6 = Inr alice_log" by (simp add: alice_history)
  have l: "latestChange fresh_db alice_log ''/posts/b.json'' =
     Some \<lparr>entry_path = ''/posts/b.json'', entry_type = ''put'', entry_version = 5\<rparr>"
    "latestChange fresh_db alice_log ''/notes.txt'' = None"
    by (simp_all add: latestChange_def alice_log_def anymatch_def fresh_db_def)
  show ?thesis
    using scanArchiveHistoryForUpdates_latest [OF h, of fresh_db] h l alice_scan
    by simp
qed

subsection \<open>What a pass does\<close>

lemma set_updatedTables:
  "set (updatedTables results) = {n. Some n \<in> set results \<and> n \<noteq> []}"
  by (auto simp: updatedTables_def split: option.splits if_splits)

lemma distinct_updatedTables: "distinct (updatedTables results)"
proof -
  have "\<And>xs :: applied list. distinct xs \<Longrightarrow>
      distinct (concat (map (\<lambda>r. case r of None \<Rightarrow> [] | Some n \<Rightarrow> if n = [] then [] else [n]) xs))"
  proof -
    fix xs :: "applied list"
    show "distinct xs \<Longrightarrow>
      distinct (concat (map (\<lambda>r. case r of None \<Rightarrow> [] | Some n \<Rightarrow> if n = [] then [] else [n]) xs))"
      by (induction xs) (auto split: option.splits if_splits)
  qed
  then show ?thesis by (simp add: updatedTables_def)
qed

lemma indexedVersion_update:
  "indexedVersion (d\<lparr>metaStore := IDB_update (metaStore d) k v\<rparr>) u =
     (if u = k then v else indexedVersion d u)"
  by (simp add: indexedVersion_def IDB_get_def IDB_update_def split: option.splits)

lemma emitUpdates_fields [simp]:
  "tables (emitUpdates d a v results) = tables d"
  "metaStore (emitUpdates d a v results) = metaStore d"
  "indexedVersion (emitUpdates d a v results) u = indexedVersion d u"
  by (simp_all add: emitUpdates_def indexedVersion_def)

lemma indexArchive_noop:
  assumes "\<not> isOpen d \<or> \<not> idx d \<or>
           (\<exists>info. getInfo a = Inr info \<and> info_version info \<le> indexedVersion d (url a))"
  shows "snd (indexArchive d a) = Returned"
    and "tables (fst (indexArchive d a)) = tables d"
    and "metaStore (fst (indexArchive d a)) = metaStore d"
    and "emitted (fst (indexArchive d a)) = emitted d"
  using assms by (auto simp: indexArchive_def)

lemma indexArchive_threw:
  assumes "isOpen d" "idx d"
    and "getInfo a = Inr info" "indexedVersion d (url a) < info_version info"
    and "scanArchiveHistoryForUpdates d a (indexedVersion d (url a) + 1) (info_version info + 1)
           = Inl e"
  shows "indexArchive d a = (d, Threw e)"
  using assms by (simp add: indexArchive_def)

lemma indexArchive_applied:
  assumes "isOpen d" "idx d"
    and "getInfo a = Inr info" "indexedVersion d (url a) < info_version info"
    and "scanArchiveHistoryForUpdates d a (indexedVersion d (url a) + 1) (info_version info + 1)
           = Inr updates"
  shows "indexArchive d a =
           (emitUpdates
              ((fst (applyUpdates d a updates))
                 \<lparr>metaStore := IDB_update (metaStore d) (url a) (info_version info)\<rparr>)
              a (info_version info) (snd (applyUpdates d a updates)),
            Returned)"
proof -
  obtain d1 results where ap: "applyUpdates d a updates = (d1, results)"
    by (cases "applyUpdates d a updates")
  have "metaStore d1 = metaStore d"
    using applyUpdates_frame [of d a updates] ap by simp
  then show ?thesis
    using assms by (simp add: indexArchive_def ap)
qed

lemma indexArchive_cases:
  obtains (noop) "snd (indexArchive d a) = Returned" "tables (fst (indexArchive d a)) = tables d"
      "metaStore (fst (indexArchive d a)) = metaStore d"
      "emitted (fst (indexArchive d a)) = emitted d"
      "\<not> isOpen d \<or> \<not> idx d \<or>
           (\<exists>info. getInfo a = Inr info \<and> info_version info \<le> indexedVersion d (url a))"
  | (threw) e where "indexArchive d a = (d, Threw e)"
  | (applied) info updates where "isOpen d" "idx d" "getInfo a = Inr info"
      "indexedVersion d (url a) < info_version info"
      "scanArchiveHistoryForUpdates d a (indexedVersion d (url a) + 1) (info_version info + 1)
           = Inr updates"
      "indexArchive d a =
           (emitUpdates
              ((fst (applyUpdates d a updates))
                 \<lparr>metaStore := IDB_update (metaStore d) (url a) (info_version info)\<rparr>)
              a (info_version info) (snd (applyUpdates d a updates)),
            Returned)"
proof (cases "\<not> isOpen d \<or> \<not> idx d \<or>
           (\<exists>info. getInfo a = Inr info \<and> info_version info \<le> indexedVersion d (url a))")
  case True
  from indexArchive_noop [OF True] True show ?thesis by (rule noop)
next
  case False
  then have o: "isOpen d" "idx d" by auto
  show ?thesis
  proof (cases "getInfo a")
    case (Inl e)
    with o have "indexArchive d a = (d, Threw e)" by (simp add: indexArchive_def)
    then show ?thesis by (rule threw)
  next
    case (Inr info)
    with False have lt: "indexedVersion d (url a) < info_version info" by auto
    show ?thesis
    proof (cases "scanArchiveHistoryForUpdates d a (indexedVersion d (url a) + 1)
                    (info_version info + 1)")
      case (Inl e)
      from indexArchive_threw [OF o Inr lt Inl] show ?thesis by (rule threw)
    next
      case scan: (Inr updates)
      from o Inr lt scan indexArchive_applied [OF o Inr lt scan] show ?thesis by (rule applied)
    qed
  qed
qed


lemma alice_open [simp]:
  "isOpen fresh_db" "idx fresh_db" "indexedVersion fresh_db ''dat://alice'' = 0"
  "tables fresh_db = [posts_table]" "emitted fresh_db = []" "metaStore fresh_db = Map.empty"
  by (simp_all add: fresh_db_def indexedVersion_def IDB_get_def)

lemma indexed_db_simps [simp]:
  "isOpen indexed_db" "idx indexed_db" "indexedVersion indexed_db ''dat://alice'' = 5"
  "tables indexed_db = [posts_indexed]"
  "metaStore indexed_db = [''dat://alice'' \<mapsto> \<lparr>meta_version = 5, meta_isWritable = None\<rparr>]"
  "emitted indexed_db = [IndexUpdated ''posts'' ''dat://alice'' 5, IndexesUpdated ''dat://alice'' 5]"
  by (simp_all add: indexed_db_def fresh_db_def indexedVersion_def IDB_get_def)

text \<open>
  C1, as amended. Let \<^verbatim>\<open>getInfo\<close> answer. When the persisted version is at least
  the remote version, or the database is closed or corrupted, the pass returns and
  leaves the tables, the IndexMeta store and the notifications as they were. When the
  database is open and sound and the persisted version \<open>v\<close> is below the remote
  version \<open>r\<close>, the pass scans the window \<open>[v + 1, r + 1)\<close>; if the history
  cannot be fetched it ends with that error and changes nothing; else it returns
  having applied the collapsed updates of that window, written version \<open>r\<close> into the
  IndexMeta of the archive, and emitted one \<^verbatim>\<open>index-updated\<close> for each distinct
  non-empty table name among the results, followed by one \<^verbatim>\<open>indexes-updated\<close>,
  all with version \<open>r\<close>.
\<close>

theorem indexArchive_pass:
  assumes "getInfo a = Inr info"
  shows "(info_version info \<le> indexedVersion d (url a) \<or> \<not> isOpen d \<or> \<not> idx d \<longrightarrow>
            snd (indexArchive d a) = Returned \<and>
            tables (fst (indexArchive d a)) = tables d \<and>
            metaStore (fst (indexArchive d a)) = metaStore d \<and>
            emitted (fst (indexArchive d a)) = emitted d) \<and>
         (isOpen d \<and> idx d \<and> indexedVersion d (url a) < info_version info \<longrightarrow>
            (case scanArchiveHistoryForUpdates d a
                    (indexedVersion d (url a) + 1) (info_version info + 1) of
               Inl e \<Rightarrow> indexArchive d a = (d, Threw e)
             | Inr updates \<Rightarrow>
                 snd (indexArchive d a) = Returned \<and>
                 tables (fst (indexArchive d a)) = tables (fst (applyUpdates d a updates)) \<and>
                 metaStore (fst (indexArchive d a)) =
                   IDB_update (metaStore d) (url a) (info_version info) \<and>
                 indexedVersion (fst (indexArchive d a)) (url a) = info_version info \<and>
                 emitted (fst (indexArchive d a)) =
                   emitted d
                   @ map (\<lambda>n. IndexUpdated n (url a) (info_version info))
                       (updatedTables (snd (applyUpdates d a updates)))
                   @ [IndexesUpdated (url a) (info_version info)] \<and>
                 distinct (updatedTables (snd (applyUpdates d a updates))) \<and>
                 set (updatedTables (snd (applyUpdates d a updates))) =
                   {n. Some n \<in> set (snd (applyUpdates d a updates)) \<and> n \<noteq> []}))"
proof (intro conjI impI)
  assume c: "info_version info \<le> indexedVersion d (url a) \<or> \<not> isOpen d \<or> \<not> idx d"
  then have n: "\<not> isOpen d \<or> \<not> idx d \<or>
      (\<exists>info. getInfo a = Inr info \<and> info_version info \<le> indexedVersion d (url a))"
    using assms by auto
  show "snd (indexArchive d a) = Returned" by (rule indexArchive_noop [OF n])
  show "tables (fst (indexArchive d a)) = tables d" by (rule indexArchive_noop [OF n])
  show "metaStore (fst (indexArchive d a)) = metaStore d" by (rule indexArchive_noop [OF n])
  show "emitted (fst (indexArchive d a)) = emitted d" by (rule indexArchive_noop [OF n])
next
  assume c: "isOpen d \<and> idx d \<and> indexedVersion d (url a) < info_version info"
  then have o: "isOpen d" "idx d" and lt: "indexedVersion d (url a) < info_version info"
    by simp_all
  show "case scanArchiveHistoryForUpdates d a
               (indexedVersion d (url a) + 1) (info_version info + 1) of
          Inl e \<Rightarrow> indexArchive d a = (d, Threw e)
        | Inr updates \<Rightarrow>
            snd (indexArchive d a) = Returned \<and>
            tables (fst (indexArchive d a)) = tables (fst (applyUpdates d a updates)) \<and>
            metaStore (fst (indexArchive d a)) =
              IDB_update (metaStore d) (url a) (info_version info) \<and>
            indexedVersion (fst (indexArchive d a)) (url a) = info_version info \<and>
            emitted (fst (indexArchive d a)) =
              emitted d
              @ map (\<lambda>n. IndexUpdated n (url a) (info_version info))
                  (updatedTables (snd (applyUpdates d a updates)))
              @ [IndexesUpdated (url a) (info_version info)] \<and>
            distinct (updatedTables (snd (applyUpdates d a updates))) \<and>
            set (updatedTables (snd (applyUpdates d a updates))) =
              {n. Some n \<in> set (snd (applyUpdates d a updates)) \<and> n \<noteq> []}"
  proof (cases "scanArchiveHistoryForUpdates d a
                  (indexedVersion d (url a) + 1) (info_version info + 1)")
    case (Inl e)
    from indexArchive_threw [OF o assms lt Inl] Inl show ?thesis by simp
  next
    case (Inr updates)
    note ap = indexArchive_applied [OF o assms lt Inr]
    have em: "emitted (fst (applyUpdates d a updates)) = emitted d"
      using applyUpdates_frame [of d a updates] by simp
    have r1: "snd (indexArchive d a) = Returned" by (simp add: ap)
    have r2: "tables (fst (indexArchive d a)) = tables (fst (applyUpdates d a updates))"
      by (simp add: ap)
    have r3: "metaStore (fst (indexArchive d a)) =
                IDB_update (metaStore d) (url a) (info_version info)"
      by (simp add: ap)
    have r4: "indexedVersion (fst (indexArchive d a)) (url a) = info_version info"
      by (simp add: ap indexedVersion_def IDB_get_def IDB_update_def split: option.splits)
    have r5: "emitted (fst (indexArchive d a)) =
              emitted d
              @ map (\<lambda>n. IndexUpdated n (url a) (info_version info))
                  (updatedTables (snd (applyUpdates d a updates)))
              @ [IndexesUpdated (url a) (info_version info)]"
      by (simp add: ap emitUpdates_def em)
    show ?thesis
      unfolding Inr sum.case
      by (intro conjI r1 r2 r3 r4 r5 distinct_updatedTables set_updatedTables)
  qed
qed

theorem indexArchive_pass_witness:
  "getInfo alice = Inr \<lparr>info_version = 5, info_isOwner = True\<rparr> \<and>
   isOpen fresh_db \<and> idx fresh_db \<and> indexedVersion fresh_db (url alice) = 0 \<and>
   scanArchiveHistoryForUpdates fresh_db alice 1 6 = Inr alice_updates \<and>
   applyUpdates fresh_db alice alice_updates =
     (fresh_db\<lparr>tables := [posts_indexed],
        console := [FailedToIndex ''dat://alice/posts/a.json'' ValidationError]\<rparr>,
      [None, Some ''posts'']) \<and>
   snd (indexArchive fresh_db alice) = Returned \<and>
   tables (fst (indexArchive fresh_db alice)) = [posts_indexed] \<and>
   indexedVersion (fst (indexArchive fresh_db alice)) (url alice) = 5 \<and>
   emitted (fst (indexArchive fresh_db alice)) =
     [IndexUpdated ''posts'' ''dat://alice'' 5, IndexesUpdated ''dat://alice'' 5] \<and>
   info_version \<lparr>info_version = 5, info_isOwner = True\<rparr> \<le> indexedVersion indexed_db (url alice) \<and>
   snd (indexArchive indexed_db alice) = Returned \<and>
   tables (fst (indexArchive indexed_db alice)) = tables indexed_db \<and>
   metaStore (fst (indexArchive indexed_db alice)) = metaStore indexed_db \<and>
   emitted (fst (indexArchive indexed_db alice)) = emitted indexed_db"
proof -
  have g: "getInfo alice = Inr \<lparr>info_version = 5, info_isOwner = True\<rparr>" by simp
  show ?thesis
    using indexArchive_pass [OF g, of fresh_db] indexArchive_pass [OF g, of indexed_db]
    by (simp add: alice_scan alice_apply updatedTables_def)
qed

text \<open>
  C1, as stated, fails on a closed database: the persisted version of
  \<^verbatim>\<open>dat://alice\<close> (none, read as 0) is below the remote version 5, and the pass
  applies nothing, writes no IndexMeta and emits nothing.
\<close>

theorem indexArchive_closed_counterexample:
  "getInfo alice = Inr \<lparr>info_version = 5, info_isOwner = True\<rparr> \<and>
   indexedVersion closed_db (url alice) = 0 \<and>
   indexArchive closed_db alice = (closed_db\<lparr>console := [ClosedDb]\<rparr>, Returned) \<and>
   tables (fst (indexArchive closed_db alice)) = [posts_table] \<and>
   rows posts_table = Map.empty \<and>
   metaStore (fst (indexArchive closed_db alice)) = Map.empty \<and>
   emitted (fst (indexArchive closed_db alice)) = []"
  by (simp add: indexArchive_def closed_db_def fresh_db_def indexedVersion_def IDB_get_def
      posts_table_def)



subsection \<open>The persisted version\<close>

lemma versionKept_refl: "versionKept d d k"
  by (simp add: versionKept_def split: option.splits)

lemma versionKept_same: "metaStore d' k = metaStore d k \<Longrightarrow> versionKept d d' k"
  by (simp add: versionKept_def split: option.splits)

lemma versionKept_trans:
  "versionKept d d1 k \<Longrightarrow> versionKept d1 d2 k \<Longrightarrow> versionKept d d2 k"
  by (auto simp: versionKept_def split: option.splits)

lemma versionKept_indexedVersion:
  "versionKept d d' k \<Longrightarrow> indexedVersion d k \<le> indexedVersion d' k"
  by (auto simp: versionKept_def indexedVersion_def IDB_get_def split: option.splits)

lemma indexArchive_other_records:
  "u \<noteq> url a \<Longrightarrow> metaStore (fst (indexArchive d a)) u = metaStore d u"
proof (cases d a rule: indexArchive_cases)
  case noop
  then show ?thesis by simp
next
  case (threw e)
  then show ?thesis by simp
next
  case (applied info updates)
  assume "u \<noteq> url a"
  then show ?thesis by (simp add: applied(6) IDB_update_def split: option.splits)
qed

lemma indexArchive_versionKept: "versionKept d (fst (indexArchive d a)) k"
proof (cases d a rule: indexArchive_cases)
  case noop
  then show ?thesis by (simp add: versionKept_same)
next
  case (threw e)
  then show ?thesis by (simp add: versionKept_refl)
next
  case (applied info updates)
  show ?thesis
  proof (cases "k = url a")
    case True
    with applied(4) show ?thesis
      by (auto simp: applied(6) versionKept_def IDB_update_def indexedVersion_def IDB_get_def
          split: option.splits)
  next
    case False
    then show ?thesis by (intro versionKept_same indexArchive_other_records)
  qed
qed

lemma loadArchives_snoc:
  "loadArchives nda (urls @ [k]) d = loadArchive nda (loadArchives nda urls d) k"
  by (simp add: loadArchives_def)

lemma loadArchive_fst:
  "fst (loadArchive nda st k) = fst (indexArchive (fst st) (nda k))"
  by (cases st) (simp add: loadArchive_def split: prod.splits)

lemma loadArchives_versionKept: "versionKept d (fst (loadArchives nda urls d)) k"
proof (induction urls rule: rev_induct)
  case Nil
  then show ?case by (simp add: loadArchives_def versionKept_refl)
next
  case (snoc u urls)
  obtain d1 c where l: "loadArchives nda urls d = (d1, c)" by (cases "loadArchives nda urls d")
  have "fst (loadArchives nda (urls @ [u]) d) = fst (indexArchive d1 (nda u))"
    by (simp add: loadArchives_snoc l loadArchive_def split: prod.splits)
  with snoc.IH l indexArchive_versionKept [of d1 "nda u" k] show ?case
    by (auto intro: versionKept_trans)
qed

lemma loadArchives_other_records:
  "k \<notin> set (map (\<lambda>u. url (nda u)) urls) \<Longrightarrow>
   metaStore (fst (loadArchives nda urls d)) k = metaStore d k"
proof (induction urls rule: rev_induct)
  case Nil
  then show ?case by (simp add: loadArchives_def)
next
  case (snoc u urls)
  obtain d1 c where l: "loadArchives nda urls d = (d1, c)" by (cases "loadArchives nda urls d")
  have e: "fst (loadArchives nda (urls @ [u]) d) = fst (indexArchive d1 (nda u))"
    by (simp add: loadArchives_snoc l loadArchive_def split: prod.splits)
  from snoc.prems have "k \<noteq> url (nda u)" by simp
  from indexArchive_other_records [OF this, of d1] snoc show ?case
    by (simp add: e l)
qed

lemma addArchive_other_records:
  "k \<noteq> url a \<Longrightarrow> metaStore (fst (addArchive d a)) k = metaStore d k"
  by (cases "getInfo a")
     (simp_all add: addArchive_def indexArchive_other_records IDB_put_meta_def)

lemma addArchive_record:
  "metaStore (fst (addArchive d a)) (url a) =
     (case getInfo a of
        Inl e \<Rightarrow> metaStore d (url a)
      | Inr info \<Rightarrow>
          Some \<lparr>meta_version =
                  (if isOpen d \<and> idx d \<and> snd (addArchive d a) = Returned
                   then info_version info else 0),
                meta_isWritable = Some (info_isOwner info)\<rparr>)"
proof (cases "getInfo a")
  case (Inl e)
  then show ?thesis by (simp add: addArchive_def)
next
  case (Inr info)
  let ?d0 = "d\<lparr>metaStore := IDB_put_meta (metaStore d) (url a)
                  \<lparr>meta_version = 0, meta_isWritable = Some (info_isOwner info)\<rparr>\<rparr>"
  have ad: "addArchive d a = indexArchive ?d0 a" by (simp add: addArchive_def Inr)
  have v0: "indexedVersion ?d0 (url a) = 0"
    by (simp add: indexedVersion_def IDB_get_def IDB_put_meta_def)
  show ?thesis
  proof (cases ?d0 a rule: indexArchive_cases)
    case noop
    from noop(5) have "\<not> (isOpen d \<and> idx d) \<or> info_version info = 0"
      by (auto simp: Inr v0)
    with noop(3) show ?thesis
      by (auto simp: ad Inr IDB_put_meta_def)
  next
    case (threw e)
    then show ?thesis by (simp add: ad Inr IDB_put_meta_def)
  next
    case (applied info' updates)
    from applied(3) Inr have i: "info' = info" by simp
    from applied(1,2) have o: "isOpen d" "idx d" by simp_all
    have m: "metaStore (fst (indexArchive ?d0 a)) (url a) =
        Some \<lparr>meta_version = info_version info,
               meta_isWritable = Some (info_isOwner info)\<rparr>"
      unfolding applied(6) by (simp add: i IDB_update_def IDB_put_meta_def)
    have r: "snd (indexArchive ?d0 a) = Returned" unfolding applied(6) by simp
    show ?thesis unfolding ad by (simp add: Inr m r o)
  qed
qed

lemma unindexArchive_records:
  "metaStore (fst (unindexArchive lrf d a)) =
     (if snd (unindexArchive lrf d a) = Returned then (metaStore d)(url a := None)
      else metaStore d)"
  by (simp add: unindexArchive_def IDB_delete_meta_def split: sum.splits prod.splits option.splits)

lemma removeArchive_db: "fst (removeArchive lrf d a) = fst (unindexArchive lrf d a)"
  by (simp add: removeArchive_def split: prod.splits completion.splits)

lemma removeArchive_completion:
  "snd (snd (removeArchive lrf d a)) = snd (unindexArchive lrf d a)"
  by (simp add: removeArchive_def split: prod.splits completion.splits)

lemma perform_versionKept:
  assumes "\<not> mayLower d op k"
  shows "versionKept d (perform nda lrf d op) k"
proof (cases op)
  case (LoadArchives urls)
  then show ?thesis by (simp add: perform_def loadArchives_versionKept)
next
  case (AddArchive a)
  with assms have "k \<noteq> url a" by (simp add: mayLower_def)
  then show ?thesis
    by (simp add: AddArchive perform_def versionKept_same addArchive_other_records)
next
  case (RemoveArchive a)
  with assms have "k \<noteq> url a" by (simp add: mayLower_def)
  then show ?thesis
    by (simp add: RemoveArchive perform_def removeArchive_db versionKept_same
        unindexArchive_records)
next
  case (WatchArchive a)
  then show ?thesis by (simp add: perform_def versionKept_refl)
next
  case (UnwatchArchive a)
  then show ?thesis by (simp add: perform_def versionKept_refl)
next
  case (WaitTillIndexed a)
  then show ?thesis
    by (simp add: perform_def waitTillIndexed_def versionKept_refl split: sum.splits)
next
  case ResetOutdatedIndexes
  with assms have "tablesToRebuild d = []" by (simp add: mayLower_def)
  then show ?thesis
    by (simp add: ResetOutdatedIndexes perform_def resetOutdatedIndexes_def versionKept_refl)
next
  case (IndexArchive a)
  then show ?thesis by (simp add: perform_def indexArchive_versionKept)
next
  case (UnindexArchive a)
  with assms have "k \<noteq> url a" by (simp add: mayLower_def)
  then show ?thesis
    by (simp add: UnindexArchive perform_def versionKept_same unindexArchive_records)
qed

text \<open>Only a pass raises a version: that of the archive it indexes.\<close>

lemma perform_raises:
  assumes "indexedVersion d k < indexedVersion (perform nda lrf d op) k"
  shows "case op of
           IndexArchive a \<Rightarrow> k = url a
         | AddArchive a \<Rightarrow> k = url a
         | LoadArchives urls \<Rightarrow> k \<in> set (map (\<lambda>u. url (nda u)) urls)
         | _ \<Rightarrow> False"
proof (cases op)
  case (LoadArchives urls)
  show ?thesis
  proof (rule ccontr)
    assume "\<not> ?thesis"
    then have "k \<notin> set (map (\<lambda>u. url (nda u)) urls)" by (simp add: LoadArchives)
    from loadArchives_other_records [OF this, of d] assms show False
      by (simp add: LoadArchives perform_def indexedVersion_def IDB_get_def)
  qed
next
  case (AddArchive a)
  show ?thesis
  proof (rule ccontr)
    assume "\<not> ?thesis"
    then have "k \<noteq> url a" by (simp add: AddArchive)
    from addArchive_other_records [OF this, of d] assms show False
      by (simp add: AddArchive perform_def indexedVersion_def IDB_get_def)
  qed
next
  case (RemoveArchive a)
  with assms show ?thesis
    by (auto simp: perform_def removeArchive_db unindexArchive_records indexedVersion_def
        IDB_get_def split: if_splits option.splits)
next
  case (WatchArchive a)
  with assms show ?thesis by (simp add: perform_def)
next
  case (UnwatchArchive a)
  with assms show ?thesis by (simp add: perform_def)
next
  case (WaitTillIndexed a)
  with assms show ?thesis
    by (simp add: perform_def waitTillIndexed_def split: sum.splits if_splits)
next
  case ResetOutdatedIndexes
  with assms show ?thesis
    by (auto simp: perform_def resetOutdatedIndexes_def indexedVersion_def IDB_get_def
        split: if_splits option.splits)
next
  case (IndexArchive a)
  show ?thesis
  proof (rule ccontr)
    assume "\<not> ?thesis"
    then have "k \<noteq> url a" by (simp add: IndexArchive)
    from indexArchive_other_records [OF this, of d] assms show False
      by (simp add: IndexArchive perform_def indexedVersion_def IDB_get_def)
  qed
next
  case (UnindexArchive a)
  with assms show ?thesis
    by (auto simp: perform_def unindexArchive_records indexedVersion_def
        IDB_get_def split: if_splits option.splits)
qed

lemma indexArchive_store_changed:
  assumes "metaStore (fst (indexArchive d a)) \<noteq> metaStore d"
  shows "\<exists>info updates. getInfo a = Inr info \<and>
         scanArchiveHistoryForUpdates d a (indexedVersion d (url a) + 1) (info_version info + 1)
           = Inr updates \<and>
         snd (indexArchive d a) = Returned \<and>
         tables (fst (indexArchive d a)) = tables (fst (applyUpdates d a updates)) \<and>
         indexedVersion (fst (indexArchive d a)) (url a) = info_version info"
proof (cases d a rule: indexArchive_cases)
  case noop
  with assms show ?thesis by simp
next
  case (threw e)
  with assms show ?thesis by simp
next
  case (applied info updates)
  have "indexedVersion (fst (indexArchive d a)) (url a) = info_version info"
    by (simp add: applied(6) indexedVersion_def IDB_get_def IDB_update_def split: option.splits)
  moreover have "tables (fst (indexArchive d a)) = tables (fst (applyUpdates d a updates))"
    by (simp add: applied(6))
  moreover have "snd (indexArchive d a) = Returned" by (simp add: applied(6))
  ultimately show ?thesis using applied(3) applied(5) by blast
qed

lemma indexArchive_returned_version:
  assumes "isOpen d" "idx d" "getInfo a = Inr info" "snd (indexArchive d a) = Returned"
    and "indexedVersion d (url a) \<le> info_version info"
  shows "indexedVersion (fst (indexArchive d a)) (url a) = info_version info"
proof (cases d a rule: indexArchive_cases)
  case noop
  with assms show ?thesis by (auto simp: indexedVersion_def)
next
  case (threw e)
  with assms show ?thesis by simp
next
  case (applied info' updates)
  with assms(3) have "info' = info" by simp
  then show ?thesis
    by (simp add: applied(6) indexedVersion_def IDB_get_def IDB_update_def split: option.splits)
qed

text \<open>
  C2, as amended. Take any operation of the indexer (\<^verbatim>\<open>loadArchives\<close>,
  \<^verbatim>\<open>addArchive\<close>, \<^verbatim>\<open>removeArchive\<close>, \<^verbatim>\<open>watchArchive\<close>,
  \<^verbatim>\<open>unwatchArchive\<close>, \<^verbatim>\<open>waitTillIndexed\<close>,
  \<^verbatim>\<open>resetOutdatedIndexes\<close>, \<^verbatim>\<open>indexArchive\<close>,
  \<^verbatim>\<open>unindexArchive\<close>) and any URL.

  \<^item> The IndexMeta record of the URL is kept and its version does not decrease, unless
    the operation is a rebuild reset with a table flagged, or is \<^verbatim>\<open>addArchive\<close>,
    \<^verbatim>\<open>removeArchive\<close> or \<^verbatim>\<open>unindexArchive\<close> on the archive of that URL.
  \<^item> The rebuild reset with a table flagged writes version 0 into every record.
  \<^item> \<^verbatim>\<open>addArchive\<close>, \<^verbatim>\<open>removeArchive\<close> and \<^verbatim>\<open>unindexArchive\<close>
    leave the records of other URLs alone. \<^verbatim>\<open>addArchive\<close> replaces the record
    of its archive (when the metadata can be read) by a fresh one, whose version is the
    remote version after a pass that returned on an open and sound database, and 0
    otherwise. \<^verbatim>\<open>unindexArchive\<close> and \<^verbatim>\<open>removeArchive\<close> delete the
    record of their archive when they return, and leave it when they fail.
  \<^item> \<^verbatim>\<open>loadArchives\<close> is a pass on the handle of each URL in turn;
    \<^verbatim>\<open>watchArchive\<close>, \<^verbatim>\<open>unwatchArchive\<close> and \<^verbatim>\<open>waitTillIndexed\<close>
    leave the database as it is.
  \<^item> A version is raised by an indexing pass only, and for the archive of the pass:
    by \<^verbatim>\<open>indexArchive\<close>, by the pass of \<^verbatim>\<open>addArchive\<close>, or by one of the
    passes of \<^verbatim>\<open>loadArchives\<close>.
  \<^item> Across \<^verbatim>\<open>indexArchive\<close> no version decreases and no record but that of the
    indexed archive changes; the IndexMeta store changes only in a pass that returns
    after it has applied the updates of its window, and then the version it holds for
    the archive is the remote version read at the start; a pass that returns on an open
    and sound database whose persisted version did not exceed the remote version leaves
    the persisted version equal to the remote version.
\<close>

theorem indexedVersion_monotone:
  "(\<not> mayLower d op k \<longrightarrow>
      versionKept d (perform newDatArchive lrf d op) k \<and>
      indexedVersion d k \<le> indexedVersion (perform newDatArchive lrf d op) k) \<and>
   (tablesToRebuild d \<noteq> [] \<longrightarrow>
      metaStore (perform newDatArchive lrf d ResetOutdatedIndexes) k =
        map_option (\<lambda>m. m\<lparr>meta_version := 0\<rparr>) (metaStore d k) \<and>
      indexedVersion (perform newDatArchive lrf d ResetOutdatedIndexes) k = 0) \<and>
   (k \<noteq> url a \<longrightarrow>
      metaStore (perform newDatArchive lrf d (AddArchive a)) k = metaStore d k \<and>
      metaStore (perform newDatArchive lrf d (RemoveArchive a)) k = metaStore d k \<and>
      metaStore (perform newDatArchive lrf d (UnindexArchive a)) k = metaStore d k) \<and>
   metaStore (perform newDatArchive lrf d (AddArchive a)) (url a) =
     (case getInfo a of
        Inl e \<Rightarrow> metaStore d (url a)
      | Inr info \<Rightarrow>
          Some \<lparr>meta_version =
                  (if isOpen d \<and> idx d \<and> snd (addArchive d a) = Returned
                   then info_version info else 0),
                meta_isWritable = Some (info_isOwner info)\<rparr>) \<and>
   metaStore (perform newDatArchive lrf d (UnindexArchive a)) (url a) =
     (if snd (unindexArchive lrf d a) = Returned then None else metaStore d (url a)) \<and>
   metaStore (perform newDatArchive lrf d (RemoveArchive a)) (url a) =
     (if snd (snd (removeArchive lrf d a)) = Returned then None else metaStore d (url a)) \<and>
   perform newDatArchive lrf d (LoadArchives []) = d \<and>
   perform newDatArchive lrf d (LoadArchives (us @ [w])) =
     fst (indexArchive (perform newDatArchive lrf d (LoadArchives us)) (newDatArchive w)) \<and>
   perform newDatArchive lrf d (WatchArchive a) = d \<and>
   perform newDatArchive lrf d (UnwatchArchive a) = d \<and>
   perform newDatArchive lrf d (WaitTillIndexed a) = d \<and>
   perform newDatArchive lrf d (IndexArchive a) = fst (indexArchive d a) \<and>
   (indexedVersion d k < indexedVersion (perform newDatArchive lrf d op) k \<longrightarrow>
      (case op of
         IndexArchive b \<Rightarrow> k = url b
       | AddArchive b \<Rightarrow> k = url b
       | LoadArchives urls \<Rightarrow> k \<in> set (map (\<lambda>u. url (newDatArchive u)) urls)
       | _ \<Rightarrow> False)) \<and>
   (\<forall>u. indexedVersion d u \<le> indexedVersion (fst (indexArchive d a)) u) \<and>
   (\<forall>u. u \<noteq> url a \<longrightarrow> metaStore (fst (indexArchive d a)) u = metaStore d u) \<and>
   (metaStore (fst (indexArchive d a)) \<noteq> metaStore d \<longrightarrow>
      (\<exists>info updates. getInfo a = Inr info \<and>
         scanArchiveHistoryForUpdates d a (indexedVersion d (url a) + 1) (info_version info + 1)
           = Inr updates \<and>
         snd (indexArchive d a) = Returned \<and>
         tables (fst (indexArchive d a)) = tables (fst (applyUpdates d a updates)) \<and>
         indexedVersion (fst (indexArchive d a)) (url a) = info_version info)) \<and>
   (\<forall>info. isOpen d \<and> idx d \<and> getInfo a = Inr info \<and> snd (indexArchive d a) = Returned \<and>
        indexedVersion d (url a) \<le> info_version info \<longrightarrow>
      indexedVersion (fst (indexArchive d a)) (url a) = info_version info)"
proof -
  have kept: "\<not> mayLower d op k \<longrightarrow>
      versionKept d (perform newDatArchive lrf d op) k \<and>
      indexedVersion d k \<le> indexedVersion (perform newDatArchive lrf d op) k"
    using perform_versionKept [of d op k newDatArchive lrf]
    by (simp add: versionKept_indexedVersion)
  have reset: "tablesToRebuild d \<noteq> [] \<longrightarrow>
      metaStore (perform newDatArchive lrf d ResetOutdatedIndexes) k =
        map_option (\<lambda>m. m\<lparr>meta_version := 0\<rparr>) (metaStore d k) \<and>
      indexedVersion (perform newDatArchive lrf d ResetOutdatedIndexes) k = 0"
    by (simp add: perform_def resetOutdatedIndexes_def indexedVersion_def IDB_get_def
        split: option.splits)
  have others: "k \<noteq> url a \<longrightarrow>
      metaStore (perform newDatArchive lrf d (AddArchive a)) k = metaStore d k \<and>
      metaStore (perform newDatArchive lrf d (RemoveArchive a)) k = metaStore d k \<and>
      metaStore (perform newDatArchive lrf d (UnindexArchive a)) k = metaStore d k"
    by (simp add: perform_def addArchive_other_records removeArchive_db
        unindexArchive_records)
  have add: "metaStore (perform newDatArchive lrf d (AddArchive a)) (url a) =
     (case getInfo a of
        Inl e \<Rightarrow> metaStore d (url a)
      | Inr info \<Rightarrow>
          Some \<lparr>meta_version =
                  (if isOpen d \<and> idx d \<and> snd (addArchive d a) = Returned
                   then info_version info else 0),
                meta_isWritable = Some (info_isOwner info)\<rparr>)"
    unfolding perform_def operation.case by (rule addArchive_record)
  have unindex: "metaStore (perform newDatArchive lrf d (UnindexArchive a)) (url a) =
     (if snd (unindexArchive lrf d a) = Returned then None else metaStore d (url a))"
    by (simp add: perform_def unindexArchive_records)
  have remove: "metaStore (perform newDatArchive lrf d (RemoveArchive a)) (url a) =
     (if snd (snd (removeArchive lrf d a)) = Returned then None else metaStore d (url a))"
    by (simp add: perform_def removeArchive_db removeArchive_completion
        unindexArchive_records)
  have load: "perform newDatArchive lrf d (LoadArchives []) = d \<and>
      perform newDatArchive lrf d (LoadArchives (us @ [w])) =
        fst (indexArchive (perform newDatArchive lrf d (LoadArchives us)) (newDatArchive w))"
    by (simp add: perform_def loadArchives_snoc loadArchive_fst) (simp add: loadArchives_def)
  have still: "perform newDatArchive lrf d (WatchArchive a) = d \<and>
      perform newDatArchive lrf d (UnwatchArchive a) = d \<and>
      perform newDatArchive lrf d (WaitTillIndexed a) = d \<and>
      perform newDatArchive lrf d (IndexArchive a) = fst (indexArchive d a)"
    by (simp add: perform_def waitTillIndexed_def split: sum.splits)
  have raise: "indexedVersion d k < indexedVersion (perform newDatArchive lrf d op) k \<longrightarrow>
      (case op of
         IndexArchive b \<Rightarrow> k = url b
       | AddArchive b \<Rightarrow> k = url b
       | LoadArchives urls \<Rightarrow> k \<in> set (map (\<lambda>u. url (newDatArchive u)) urls)
       | _ \<Rightarrow> False)"
    using perform_raises [of d k newDatArchive lrf op] by blast
  have mono: "\<forall>u. indexedVersion d u \<le> indexedVersion (fst (indexArchive d a)) u"
    by (simp add: versionKept_indexedVersion indexArchive_versionKept)
  have other: "\<forall>u. u \<noteq> url a \<longrightarrow> metaStore (fst (indexArchive d a)) u = metaStore d u"
    by (simp add: indexArchive_other_records)
  have changed: "metaStore (fst (indexArchive d a)) \<noteq> metaStore d \<longrightarrow>
      (\<exists>info updates. getInfo a = Inr info \<and>
         scanArchiveHistoryForUpdates d a (indexedVersion d (url a) + 1) (info_version info + 1)
           = Inr updates \<and>
         snd (indexArchive d a) = Returned \<and>
         tables (fst (indexArchive d a)) = tables (fst (applyUpdates d a updates)) \<and>
         indexedVersion (fst (indexArchive d a)) (url a) = info_version info)"
    using indexArchive_store_changed [of d a] by blast
  have returned: "\<forall>info. isOpen d \<and> idx d \<and> getInfo a = Inr info \<and>
        snd (indexArchive d a) = Returned \<and>
        indexedVersion d (url a) \<le> info_version info \<longrightarrow>
      indexedVersion (fst (indexArchive d a)) (url a) = info_version info"
    using indexArchive_returned_version [of d a] by blast
  show ?thesis
    by (intro conjI kept reset others add unindex remove load [THEN conjunct1]
        load [THEN conjunct2] still [THEN conjunct1] still [THEN conjunct2, THEN conjunct1]
        still [THEN conjunct2, THEN conjunct2, THEN conjunct1]
        still [THEN conjunct2, THEN conjunct2, THEN conjunct2]
        raise mono other changed returned)
qed

theorem indexedVersion_monotone_witness:
  "isOpen fresh_db \<and> idx fresh_db \<and>
   getInfo alice = Inr \<lparr>info_version = 5, info_isOwner = True\<rparr> \<and>
   indexedVersion fresh_db (url alice) = 0 \<and>
   ''dat://bob'' \<noteq> url alice \<and>
   metaStore (fst (indexArchive fresh_db alice)) ''dat://bob'' = metaStore fresh_db ''dat://bob'' \<and>
   metaStore (fst (indexArchive fresh_db alice)) \<noteq> metaStore fresh_db \<and>
   scanArchiveHistoryForUpdates fresh_db alice (indexedVersion fresh_db (url alice) + 1) 6
     = Inr alice_updates \<and>
   snd (indexArchive fresh_db alice) = Returned \<and>
   tables (fst (indexArchive fresh_db alice)) = tables (fst (applyUpdates fresh_db alice alice_updates)) \<and>
   indexedVersion (fst (indexArchive fresh_db alice)) (url alice) = 5 \<and>
   (\<forall>u. indexedVersion fresh_db u \<le> indexedVersion (fst (indexArchive fresh_db alice)) u) \<and>
   indexedVersion fresh_db ''dat://alice'' <
     indexedVersion (perform open_alice alice_listing fresh_db (IndexArchive alice))
       ''dat://alice'' \<and>
   \<not> mayLower indexed_db (LoadArchives [''dat://alice'']) ''dat://alice'' \<and>
   metaStore indexed_db ''dat://alice'' = Some \<lparr>meta_version = 5, meta_isWritable = None\<rparr> \<and>
   versionKept indexed_db
     (perform open_alice alice_listing indexed_db (LoadArchives [''dat://alice'']))
     ''dat://alice'' \<and>
   indexedVersion
     (perform open_alice alice_listing indexed_db (LoadArchives [''dat://alice'']))
     ''dat://alice'' = 5 \<and>
   tablesToRebuild stale_db \<noteq> [] \<and>
   indexedVersion stale_db ''dat://alice'' = 5 \<and>
   indexedVersion (perform open_alice alice_listing stale_db ResetOutdatedIndexes)
     ''dat://alice'' = 0 \<and>
   metaStore (perform open_alice alice_listing indexed_db (AddArchive alice)) ''dat://bob'' =
     metaStore indexed_db ''dat://bob'' \<and>
   snd (unindexArchive alice_listing indexed_db alice) = Returned \<and>
   metaStore (perform open_alice alice_listing indexed_db (UnindexArchive alice))
     ''dat://alice'' = None"
proof -
  note A = indexedVersion_monotone [where d = fresh_db and op = "IndexArchive alice"
      and k = "''dat://bob''" and newDatArchive = open_alice and lrf = alice_listing
      and a = alice]
  note B = indexedVersion_monotone [where d = indexed_db
      and op = "LoadArchives [''dat://alice'']"
      and k = "''dat://alice''" and newDatArchive = open_alice and lrf = alice_listing
      and a = alice]
  note C = indexedVersion_monotone [where d = stale_db and op = ResetOutdatedIndexes
      and k = "''dat://alice''" and newDatArchive = open_alice and lrf = alice_listing
      and a = alice]
  note D = indexedVersion_monotone [where d = indexed_db and op = "UnindexArchive alice"
      and k = "''dat://bob''" and newDatArchive = open_alice and lrf = alice_listing
      and a = alice]
  have pA: "perform open_alice alice_listing fresh_db (IndexArchive alice) = indexed_db"
    by (simp add: perform_def alice_pass)
  have ne: "metaStore indexed_db \<noteq> metaStore fresh_db"
  proof -
    have "metaStore indexed_db ''dat://alice'' \<noteq> metaStore fresh_db ''dat://alice''" by simp
    then show ?thesis by metis
  qed
  have a1: "isOpen fresh_db \<and> idx fresh_db \<and>
     getInfo alice = Inr \<lparr>info_version = 5, info_isOwner = True\<rparr> \<and>
     indexedVersion fresh_db (url alice) = 0 \<and> ''dat://bob'' \<noteq> url alice"
    by simp
  have a2: "metaStore (fst (indexArchive fresh_db alice)) ''dat://bob'' =
      metaStore fresh_db ''dat://bob''"
    using A by simp
  have a3: "metaStore (fst (indexArchive fresh_db alice)) \<noteq> metaStore fresh_db"
    using ne by (simp add: alice_pass)
  have a4: "scanArchiveHistoryForUpdates fresh_db alice
      (indexedVersion fresh_db (url alice) + 1) 6 = Inr alice_updates \<and>
     snd (indexArchive fresh_db alice) = Returned \<and>
     tables (fst (indexArchive fresh_db alice)) =
       tables (fst (applyUpdates fresh_db alice alice_updates)) \<and>
     indexedVersion (fst (indexArchive fresh_db alice)) (url alice) = 5"
    using A a3 by (simp add: alice_scan)
  have a5: "\<forall>u. indexedVersion fresh_db u \<le> indexedVersion (fst (indexArchive fresh_db alice)) u"
    using A by blast
  have a6: "indexedVersion fresh_db ''dat://alice'' <
     indexedVersion (perform open_alice alice_listing fresh_db (IndexArchive alice))
       ''dat://alice''"
    by (simp add: pA)
  have b0: "\<not> mayLower indexed_db (LoadArchives [''dat://alice'']) ''dat://alice''"
    by (simp add: mayLower_def)
  have b1: "metaStore indexed_db ''dat://alice'' =
      Some \<lparr>meta_version = 5, meta_isWritable = None\<rparr>"
    by simp
  have pB: "perform open_alice alice_listing indexed_db (LoadArchives [''dat://alice'']) =
      indexed_db"
    by (simp add: perform_def loadArchives_def loadArchive_def open_alice_def indexArchive_def)
  have b2: "versionKept indexed_db
     (perform open_alice alice_listing indexed_db (LoadArchives [''dat://alice'']))
     ''dat://alice''"
    using B b0 by blast
  have b3: "indexedVersion
     (perform open_alice alice_listing indexed_db (LoadArchives [''dat://alice'']))
     ''dat://alice'' = 5"
    by (simp add: pB)
  have c0: "tablesToRebuild stale_db \<noteq> []" "indexedVersion stale_db ''dat://alice'' = 5"
    by (simp_all add: stale_db_def indexedVersion_def IDB_get_def)
  have c1: "indexedVersion (perform open_alice alice_listing stale_db ResetOutdatedIndexes)
     ''dat://alice'' = 0"
    using C c0(1) by blast
  have d0: "metaStore (perform open_alice alice_listing indexed_db (AddArchive alice))
      ''dat://bob'' = metaStore indexed_db ''dat://bob''"
    using D a1 by simp
  have d1: "snd (unindexArchive alice_listing indexed_db alice) = Returned"
    by (simp add: unindexArchive_def alice_listing_def deleteMatch_def IDB_delete_def
        posts_indexed_def posts_table_def)
  have d2: "metaStore (perform open_alice alice_listing indexed_db (UnindexArchive alice))
     ''dat://alice'' = None"
    using D d1 by simp
  show ?thesis
    by (intro conjI a1 [THEN conjunct1] a1 [THEN conjunct2, THEN conjunct1]
        a1 [THEN conjunct2, THEN conjunct2, THEN conjunct1]
        a1 [THEN conjunct2, THEN conjunct2, THEN conjunct2, THEN conjunct1]
        a1 [THEN conjunct2, THEN conjunct2, THEN conjunct2, THEN conjunct2]
        a2 a3 a4 [THEN conjunct1] a4 [THEN conjunct2, THEN conjunct1]
        a4 [THEN conjunct2, THEN conjunct2, THEN conjunct1]
        a4 [THEN conjunct2, THEN conjunct2, THEN conjunct2]
        a5 a6 b0 b1 b2 b3 c0 c1 d0 d1 d2)
qed

text \<open>
  C2, as stated, fails across \<^verbatim>\<open>addArchive\<close>: the archive was indexed up to
  version 5; adding it again while its history cannot be fetched puts a fresh IndexMeta
  at version 0 and ends with the error of the pass, so the persisted version went from
  5 to 0 without any rebuild reset.
\<close>

theorem addArchive_resets_version_counterexample:
  "indexedVersion indexed_db (url alice_offline) = 5 \<and>
   getInfo alice_offline = Inr \<lparr>info_version = 5, info_isOwner = True\<rparr> \<and>
   snd (addArchive indexed_db alice_offline) = Threw ArchiveError \<and>
   metaStore (fst (addArchive indexed_db alice_offline)) =
     [''dat://alice'' \<mapsto> \<lparr>meta_version = 0, meta_isWritable = Some True\<rparr>] \<and>
   indexedVersion (fst (addArchive indexed_db alice_offline)) (url alice_offline) = 0"
  by (simp add: addArchive_def alice_offline_def alice_def indexArchive_def IDB_put_meta_def
      indexedVersion_def IDB_get_def scanArchiveHistoryForUpdates_def indexed_db_def fresh_db_def)

subsection \<open>resetOutdatedIndexes\<close>

text \<open>
  C7. Without a table flagged for rebuild, \<^verbatim>\<open>resetOutdatedIndexes\<close> returns false
  and the database is as it was. Otherwise it returns true, every table of the database
  (flagged or not) is the table it was with an empty store, and every IndexMeta record
  is the record it was with version 0, so that every archive reads as indexed up to
  version 0.
\<close>

theorem resetOutdatedIndexes_effect:
  "(tablesToRebuild d = [] \<longrightarrow> resetOutdatedIndexes d = (d, False)) \<and>
   (tablesToRebuild d \<noteq> [] \<longrightarrow>
      snd (resetOutdatedIndexes d) = True \<and>
      tables (fst (resetOutdatedIndexes d)) = map IDB_clear (tables d) \<and>
      map name (tables (fst (resetOutdatedIndexes d))) = map name (tables d) \<and>
      (\<forall>t \<in> set (tables (fst (resetOutdatedIndexes d))). rows t = Map.empty) \<and>
      (\<forall>u. metaStore (fst (resetOutdatedIndexes d)) u =
             map_option (\<lambda>m. m\<lparr>meta_version := 0\<rparr>) (metaStore d u)) \<and>
      (\<forall>u. indexedVersion (fst (resetOutdatedIndexes d)) u = 0))"
proof (intro conjI impI)
  assume "tablesToRebuild d = []"
  then show "resetOutdatedIndexes d = (d, False)" by (simp add: resetOutdatedIndexes_def)
next
  assume n: "tablesToRebuild d \<noteq> []"
  then have r: "resetOutdatedIndexes d =
      (d\<lparr>tables := map IDB_clear (tables d),
          metaStore := (\<lambda>u. map_option (\<lambda>m. m\<lparr>meta_version := 0\<rparr>) (metaStore d u))\<rparr>, True)"
    by (simp add: resetOutdatedIndexes_def)
  show "snd (resetOutdatedIndexes d) = True" by (simp add: r)
  show "tables (fst (resetOutdatedIndexes d)) = map IDB_clear (tables d)" by (simp add: r)
  show "map name (tables (fst (resetOutdatedIndexes d))) = map name (tables d)"
    by (simp add: r IDB_clear_def)
  show "\<forall>t \<in> set (tables (fst (resetOutdatedIndexes d))). rows t = Map.empty"
    by (auto simp: r IDB_clear_def)
  show "\<forall>u. metaStore (fst (resetOutdatedIndexes d)) u =
             map_option (\<lambda>m. m\<lparr>meta_version := 0\<rparr>) (metaStore d u)"
    by (simp add: r)
  show "\<forall>u. indexedVersion (fst (resetOutdatedIndexes d)) u = 0"
    by (simp add: r indexedVersion_def IDB_get_def split: option.splits)
qed

theorem resetOutdatedIndexes_effect_witness:
  "tablesToRebuild indexed_db = [] \<and> resetOutdatedIndexes indexed_db = (indexed_db, False) \<and>
   tablesToRebuild stale_db = [''posts''] \<and>
   indexedVersion stale_db ''dat://alice'' = 5 \<and>
   rows (hd (tables stale_db)) ''dat://alice/posts/b.json'' = Some post_b \<and>
   snd (resetOutdatedIndexes stale_db) = True \<and>
   tables (fst (resetOutdatedIndexes stale_db)) = [posts_table] \<and>
   rows posts_table = Map.empty \<and>
   metaStore (fst (resetOutdatedIndexes stale_db)) ''dat://alice'' =
     Some \<lparr>meta_version = 0, meta_isWritable = None\<rparr> \<and>
   indexedVersion (fst (resetOutdatedIndexes stale_db)) ''dat://alice'' = 0"
proof -
  have a: "tablesToRebuild indexed_db = []" by (simp add: indexed_db_def fresh_db_def)
  have b: "tablesToRebuild stale_db = [''posts'']" "tablesToRebuild stale_db \<noteq> []"
    by (simp_all add: stale_db_def)
  have c: "tables stale_db = [posts_indexed]" "indexedVersion stale_db ''dat://alice'' = 5"
    "metaStore stale_db = metaStore indexed_db"
    by (simp_all add: stale_db_def indexedVersion_def IDB_get_def)
  have e: "IDB_clear posts_indexed = posts_table" "rows posts_table = Map.empty"
    "rows posts_indexed ''dat://alice/posts/b.json'' = Some post_b"
    by (simp_all add: IDB_clear_def posts_indexed_def posts_table_def)
  show ?thesis
    using resetOutdatedIndexes_effect [of indexed_db] resetOutdatedIndexes_effect [of stale_db]
    by (simp add: a b c e)
qed



subsection \<open>Errors of one record\<close>

text \<open>The three kinds of per-record error, each an error of the \<^verbatim>\<open>try\<close> block.\<close>

lemma index_first_match:
  assumes "find (\<lambda>t. isRecordFile t p) ts = Some t"
  shows "isl (indexOnFirstMatch a p r ts) = isl (storeRecord a p r t)"
  using assms
proof (induction ts)
  case Nil
  then show ?case by simp
next
  case (Cons x ts)
  show ?case
  proof (cases "isRecordFile x p")
    case True
    with Cons.prems have "x = t" by simp
    with True show ?thesis by (cases "storeRecord a p r t") simp_all
  next
    case False
    with Cons.prems have "find (\<lambda>t. isRecordFile t p) ts = Some t" by simp
    from Cons.IH [OF this] False show ?thesis
      by (cases "indexOnFirstMatch a p r ts") (auto split: prod.splits)
  qed
qed

lemma deserialization_failure:
  assumes "entry_type u \<noteq> ''del''" and "readFile a (entry_path u) = Inr NotJson"
  shows "tryUpdate a u ts = Inl SyntaxError"
  using assms by (simp add: tryUpdate_def readAndIndexFile_try_def)

lemma validator_rejection:
  assumes "entry_type u \<noteq> ''del''" and "readFile a (entry_path u) = Inr (Json r)"
    and "find (\<lambda>t. isRecordFile t (entry_path u)) ts = Some t"
    and "validator t = Some v" and "v r = Inl e"
  shows "isl (tryUpdate a u ts)"
proof -
  have "isl (storeRecord a (entry_path u) r t)"
    using assms(4,5) by (simp add: storeRecord_def)
  then show ?thesis
    using assms(1,2) index_first_match [OF assms(3), of a r]
    by (simp add: tryUpdate_def readAndIndexFile_try_def)
qed

lemma store_error:
  assumes "entry_type u \<noteq> ''del''" and "readFile a (entry_path u) = Inr (Json r)"
    and "find (\<lambda>t. isRecordFile t (entry_path u)) ts = Some t"
    and "faulty t (url a @ entry_path u)"
  shows "isl (tryUpdate a u ts)"
proof -
  have "isl (storeRecord a (entry_path u) r t)"
  proof (cases "storeRecord a (entry_path u) r t")
    case (Inl e)
    then show ?thesis by simp
  next
    case (Inr t')
    then obtain r1 r2 r3 where
      s1: "set_prop r1 ''_url'' (JStr (url a @ entry_path u)) = Inr r2"
      and s2: "set_prop r2 ''_origin'' (JStr (url a)) = Inr r3"
      and put: "IDB_put t r3 = Inr t'"
      unfolding storeRecord_def andThen_Inr_iff by blast
    from put obtain k where k: "recordKey r3 = Some k" and nf: "\<not> faulty t k"
      by (auto simp: IDB_put_def split: option.splits if_splits)
    from stamped_key [OF s1 s2 k] nf assms(4) show ?thesis by simp
  qed
  then show ?thesis
    using assms(1,2) index_first_match [OF assms(3), of a r]
    by (simp add: tryUpdate_def readAndIndexFile_try_def)
qed


lemma delete_error:
  assumes "entry_type u = ''del''"
    and "find (\<lambda>t. isRecordFile t (entry_path u)) ts = Some t"
    and "faulty t (url a @ entry_path u)"
  shows "tryUpdate a u ts = Inl StoreError"
proof -
  have "unindexOnFirstMatch a (entry_path u) ts = Inl StoreError"
    using assms(2,3)
  proof (induction ts)
    case Nil
    then show ?case by simp
  next
    case (Cons x ts)
    then show ?case
      by (cases "isRecordFile x (entry_path u)") (auto simp: IDB_delete_def)
  qed
  then show ?thesis using assms(1) by (simp add: tryUpdate_def)
qed

text \<open>
  C4. Let an update of a batch raise a per-record error, that is, let its
  \<^verbatim>\<open>try\<close> block raise (by \<^verbatim>\<open>deserialization_failure\<close>,
  \<^verbatim>\<open>validator_rejection\<close>, \<^verbatim>\<open>store_error\<close> and \<^verbatim>\<open>delete_error\<close>
  the three kinds of the claim do). Then:

  \<^item> handling it alone logs the error, returns \<^verbatim>\<open>false\<close> and leaves the
    database otherwise as it was;
  \<^item> the batch with it leaves the tables that the batch without it leaves, and gives
    the other paths the results they have without it, with \<^verbatim>\<open>false\<close> at its
    place; \<^verbatim>\<open>applyUpdates\<close> gives a result for every path (it has no way to
    raise);
  \<^item> a pass whose window holds that batch returns, with the version of the archive
    advanced to the remote version, and leaves the tables and the console of the batch;
    the paths of its batch are distinct;
  \<^item> the batch adds to the console the failure lines of its failing updates and no
    other line, the line of this update among them (the lines of a batch come in the
    order its callbacks fail, so they are compared as a multiset);
  \<^item> the batch leaves every table as it was but for its rows;
  \<^item> when the paths of the batch are distinct: no table holds another record under the
    URL of the failing file than before the batch; and for every update of the batch
    and the table its path goes to (the first that takes it), a valid change leaves in
    that table the validated record with its two provenance fields under the URL of
    the file, a valid deletion leaves that table without a record under that URL,
    either gives the name of the table as its result, and the update leaves what the
    other tables hold under that URL as it was.
\<close>

theorem per_record_error_contained:
  assumes "isl (tryUpdate a u (tables d))"
  shows "(\<exists>e. tryUpdate a u (tables d) = Inl e \<and>
            applyUpdate d a u = (d\<lparr>console := console d @ [failureLine a u e]\<rparr>, None)) \<and>
         tables (fst (applyUpdates d a (xs @ (p, u) # ys))) =
           tables (fst (applyUpdates d a (xs @ ys))) \<and>
         snd (applyUpdates d a (xs @ (p, u) # ys)) =
           take (length xs) (snd (applyUpdates d a (xs @ ys))) @ None
             # drop (length xs) (snd (applyUpdates d a (xs @ ys))) \<and>
         length (snd (applyUpdates d a (xs @ (p, u) # ys))) = length (xs @ (p, u) # ys) \<and>
         (isOpen d \<and> idx d \<and> getInfo a = Inr info \<and>
          indexedVersion d (url a) < info_version info \<and>
          scanArchiveHistoryForUpdates d a (indexedVersion d (url a) + 1) (info_version info + 1)
            = Inr (xs @ (p, u) # ys) \<longrightarrow>
            snd (indexArchive d a) = Returned \<and>
            indexedVersion (fst (indexArchive d a)) (url a) = info_version info \<and>
            tables (fst (indexArchive d a)) = tables (fst (applyUpdates d a (xs @ ys))) \<and>
            tables (fst (indexArchive d a)) = tables (fst (applyUpdates d a (xs @ (p, u) # ys))) \<and>
            console (fst (indexArchive d a)) = console (fst (applyUpdates d a (xs @ (p, u) # ys))) \<and>
            distinct (map (\<lambda>(q, v). entry_path v) (xs @ (p, u) # ys))) \<and>
         (\<exists>e lines. tryUpdate a u (tables d) = Inl e \<and>
            console (fst (applyUpdates d a (xs @ (p, u) # ys))) = console d @ lines \<and>
            mset lines = mset (failures a (tables d) (xs @ (p, u) # ys)) \<and>
            failureLine a u e \<in> set lines) \<and>
         map IDB_clear (tables (fst (applyUpdates d a (xs @ (p, u) # ys)))) = map IDB_clear (tables d) \<and>
         (distinct (map (\<lambda>(q, v). entry_path v) (xs @ (p, u) # ys)) \<longrightarrow>
            (\<forall>j<length (tables d).
              rows (tables (fst (applyUpdates d a (xs @ (p, u) # ys))) ! j) (url a @ entry_path u) =
                rows (tables d ! j) (url a @ entry_path u)) \<and>
            (\<forall>n<length (xs @ (p, u) # ys). \<forall>i. firstMatch (tables d) (entry_path (snd ((xs @ (p, u) # ys) ! n))) i \<longrightarrow>
              (\<forall>k ps. validPut a (tables d ! i) (snd ((xs @ (p, u) # ys) ! n)) k ps \<longrightarrow>
                 snd (applyUpdates d a (xs @ (p, u) # ys)) ! n = Some (name (tables d ! i)) \<and>
                 rows (tables (fst (applyUpdates d a (xs @ (p, u) # ys))) ! i) (url a @ entry_path (snd ((xs @ (p, u) # ys) ! n))) =
                   Some (stamped a (entry_path (snd ((xs @ (p, u) # ys) ! n))) k ps)) \<and>
              (validDelete a (tables d ! i) (snd ((xs @ (p, u) # ys) ! n)) \<longrightarrow>
                 snd (applyUpdates d a (xs @ (p, u) # ys)) ! n = Some (name (tables d ! i)) \<and>
                 rows (tables (fst (applyUpdates d a (xs @ (p, u) # ys))) ! i) (url a @ entry_path (snd ((xs @ (p, u) # ys) ! n))) = None) \<and>
              (\<forall>j<length (tables d). j \<noteq> i \<longrightarrow>
                 rows (tables (fst (applyUpdates d a (xs @ (p, u) # ys))) ! j) (url a @ entry_path (snd ((xs @ (p, u) # ys) ! n))) =
                   rows (tables d ! j) (url a @ entry_path (snd ((xs @ (p, u) # ys) ! n))))))"
proof -
  from assms obtain e where e: "tryUpdate a u (tables d) = Inl e"
    by (cases "tryUpdate a u (tables d)") simp_all
  have one: "applyUpdate d a u = (d\<lparr>console := console d @ [failureLine a u e]\<rparr>, None)"
    by (simp add: applyUpdate_eq e)
  have tabs: "tables (fst (applyUpdates d a (xs @ (p, u) # ys))) =
           tables (fst (applyUpdates d a (xs @ ys)))"
    unfolding applyUpdates_tables by (rule run_skip_failed [OF assms])
  have "resultOf a u (tables d) = None"
    using assms by (rule tablesAfter_failed)
  then have res: "snd (applyUpdates d a (xs @ (p, u) # ys)) =
           take (length xs) (snd (applyUpdates d a (xs @ ys))) @ None
             # drop (length xs) (snd (applyUpdates d a (xs @ ys)))"
    by (simp add: applyUpdates_results)
  have len: "length (snd (applyUpdates d a (xs @ (p, u) # ys))) = length (xs @ (p, u) # ys)"
    by (rule applyUpdates_length)
  have pass: "isOpen d \<and> idx d \<and> getInfo a = Inr info \<and>
          indexedVersion d (url a) < info_version info \<and>
          scanArchiveHistoryForUpdates d a (indexedVersion d (url a) + 1) (info_version info + 1)
            = Inr (xs @ (p, u) # ys) \<longrightarrow>
            snd (indexArchive d a) = Returned \<and>
            indexedVersion (fst (indexArchive d a)) (url a) = info_version info \<and>
            tables (fst (indexArchive d a)) = tables (fst (applyUpdates d a (xs @ ys))) \<and>
            tables (fst (indexArchive d a)) = tables (fst (applyUpdates d a (xs @ (p, u) # ys))) \<and>
            console (fst (indexArchive d a)) = console (fst (applyUpdates d a (xs @ (p, u) # ys))) \<and>
            distinct (map (\<lambda>(q, v). entry_path v) (xs @ (p, u) # ys))"
  proof
    assume h: "isOpen d \<and> idx d \<and> getInfo a = Inr info \<and>
          indexedVersion d (url a) < info_version info \<and>
          scanArchiveHistoryForUpdates d a (indexedVersion d (url a) + 1) (info_version info + 1)
            = Inr (xs @ (p, u) # ys)"
    then have ap: "indexArchive d a =
           (emitUpdates
              ((fst (applyUpdates d a (xs @ (p, u) # ys)))
                 \<lparr>metaStore := IDB_update (metaStore d) (url a) (info_version info)\<rparr>)
              a (info_version info) (snd (applyUpdates d a (xs @ (p, u) # ys))),
            Returned)"
      by (intro indexArchive_applied) simp_all
    have "indexedVersion (fst (indexArchive d a)) (url a) = info_version info"
      by (simp add: ap indexedVersion_def IDB_get_def IDB_update_def split: option.splits)
    moreover have "tables (fst (indexArchive d a)) = tables (fst (applyUpdates d a (xs @ ys)))"
      by (simp add: ap tabs)
    moreover have "tables (fst (indexArchive d a)) =
        tables (fst (applyUpdates d a (xs @ (p, u) # ys)))"
      by (simp add: ap)
    moreover have "console (fst (indexArchive d a)) =
        console (fst (applyUpdates d a (xs @ (p, u) # ys)))"
      by (simp add: ap emitUpdates_def)
    moreover have "snd (indexArchive d a) = Returned" by (simp add: ap)
    moreover have "distinct (map (\<lambda>(q, v). entry_path v) (xs @ (p, u) # ys))"
    proof -
      from h have "scanArchiveHistoryForUpdates d a (indexedVersion d (url a) + 1)
          (info_version info + 1) = Inr (xs @ (p, u) # ys)"
        by blast
      then show ?thesis by (rule scan_distinct_paths)
    qed
    ultimately show "snd (indexArchive d a) = Returned \<and>
            indexedVersion (fst (indexArchive d a)) (url a) = info_version info \<and>
            tables (fst (indexArchive d a)) = tables (fst (applyUpdates d a (xs @ ys))) \<and>
            tables (fst (indexArchive d a)) = tables (fst (applyUpdates d a (xs @ (p, u) # ys))) \<and>
            console (fst (indexArchive d a)) = console (fst (applyUpdates d a (xs @ (p, u) # ys))) \<and>
            distinct (map (\<lambda>(q, v). entry_path v) (xs @ (p, u) # ys))"
      by simp
  qed
  have log: "(\<exists>e lines. tryUpdate a u (tables d) = Inl e \<and>
            console (fst (applyUpdates d a (xs @ (p, u) # ys))) = console d @ lines \<and>
            mset lines = mset (failures a (tables d) (xs @ (p, u) # ys)) \<and>
            failureLine a u e \<in> set lines)"
  proof -
    from batch_log [of d a "xs @ (p, u) # ys"] obtain lines
      where c: "console (fst (applyUpdates d a (xs @ (p, u) # ys))) = console d @ lines"
        and m: "mset lines = mset (failures a (tables d) (xs @ (p, u) # ys))"
      by blast
    have "failureLine a u e \<in> set (failures a (tables d) (xs @ (p, u) # ys))"
      by (rule failure_logged [OF e, of p]) simp
    then have "failureLine a u e \<in> set lines"
      using mset_eq_setD [OF m] by simp
    with e c m show ?thesis by blast
  qed
  have static: "map IDB_clear (tables (fst (applyUpdates d a (xs @ (p, u) # ys)))) = map IDB_clear (tables d)"
    by (rule batch_static)
  have stored: "distinct (map (\<lambda>(q, v). entry_path v) (xs @ (p, u) # ys)) \<longrightarrow>
            (\<forall>j<length (tables d).
              rows (tables (fst (applyUpdates d a (xs @ (p, u) # ys))) ! j) (url a @ entry_path u) =
                rows (tables d ! j) (url a @ entry_path u)) \<and>
            (\<forall>n<length (xs @ (p, u) # ys). \<forall>i. firstMatch (tables d) (entry_path (snd ((xs @ (p, u) # ys) ! n))) i \<longrightarrow>
              (\<forall>k ps. validPut a (tables d ! i) (snd ((xs @ (p, u) # ys) ! n)) k ps \<longrightarrow>
                 snd (applyUpdates d a (xs @ (p, u) # ys)) ! n = Some (name (tables d ! i)) \<and>
                 rows (tables (fst (applyUpdates d a (xs @ (p, u) # ys))) ! i) (url a @ entry_path (snd ((xs @ (p, u) # ys) ! n))) =
                   Some (stamped a (entry_path (snd ((xs @ (p, u) # ys) ! n))) k ps)) \<and>
              (validDelete a (tables d ! i) (snd ((xs @ (p, u) # ys) ! n)) \<longrightarrow>
                 snd (applyUpdates d a (xs @ (p, u) # ys)) ! n = Some (name (tables d ! i)) \<and>
                 rows (tables (fst (applyUpdates d a (xs @ (p, u) # ys))) ! i) (url a @ entry_path (snd ((xs @ (p, u) # ys) ! n))) = None) \<and>
              (\<forall>j<length (tables d). j \<noteq> i \<longrightarrow>
                 rows (tables (fst (applyUpdates d a (xs @ (p, u) # ys))) ! j) (url a @ entry_path (snd ((xs @ (p, u) # ys) ! n))) =
                   rows (tables d ! j) (url a @ entry_path (snd ((xs @ (p, u) # ys) ! n)))))"
  proof
    assume dist: "distinct (map (\<lambda>(q, v). entry_path v) (xs @ (p, u) # ys))"
    have f: "(\<forall>j<length (tables d).
              rows (tables (fst (applyUpdates d a (xs @ (p, u) # ys))) ! j) (url a @ entry_path u) =
                rows (tables d ! j) (url a @ entry_path u))"
      using batch_failed_rows [OF dist _ assms, of p] by simp
    have v: "(\<forall>n<length (xs @ (p, u) # ys). \<forall>i. firstMatch (tables d) (entry_path (snd ((xs @ (p, u) # ys) ! n))) i \<longrightarrow>
              (\<forall>k ps. validPut a (tables d ! i) (snd ((xs @ (p, u) # ys) ! n)) k ps \<longrightarrow>
                 snd (applyUpdates d a (xs @ (p, u) # ys)) ! n = Some (name (tables d ! i)) \<and>
                 rows (tables (fst (applyUpdates d a (xs @ (p, u) # ys))) ! i) (url a @ entry_path (snd ((xs @ (p, u) # ys) ! n))) =
                   Some (stamped a (entry_path (snd ((xs @ (p, u) # ys) ! n))) k ps)) \<and>
              (validDelete a (tables d ! i) (snd ((xs @ (p, u) # ys) ! n)) \<longrightarrow>
                 snd (applyUpdates d a (xs @ (p, u) # ys)) ! n = Some (name (tables d ! i)) \<and>
                 rows (tables (fst (applyUpdates d a (xs @ (p, u) # ys))) ! i) (url a @ entry_path (snd ((xs @ (p, u) # ys) ! n))) = None) \<and>
              (\<forall>j<length (tables d). j \<noteq> i \<longrightarrow>
                 rows (tables (fst (applyUpdates d a (xs @ (p, u) # ys))) ! j) (url a @ entry_path (snd ((xs @ (p, u) # ys) ! n))) =
                   rows (tables d ! j) (url a @ entry_path (snd ((xs @ (p, u) # ys) ! n)))))"
      using batch_valid [OF dist] by blast
    from f v show "(\<forall>j<length (tables d).
              rows (tables (fst (applyUpdates d a (xs @ (p, u) # ys))) ! j) (url a @ entry_path u) =
                rows (tables d ! j) (url a @ entry_path u)) \<and>
            (\<forall>n<length (xs @ (p, u) # ys). \<forall>i. firstMatch (tables d) (entry_path (snd ((xs @ (p, u) # ys) ! n))) i \<longrightarrow>
              (\<forall>k ps. validPut a (tables d ! i) (snd ((xs @ (p, u) # ys) ! n)) k ps \<longrightarrow>
                 snd (applyUpdates d a (xs @ (p, u) # ys)) ! n = Some (name (tables d ! i)) \<and>
                 rows (tables (fst (applyUpdates d a (xs @ (p, u) # ys))) ! i) (url a @ entry_path (snd ((xs @ (p, u) # ys) ! n))) =
                   Some (stamped a (entry_path (snd ((xs @ (p, u) # ys) ! n))) k ps)) \<and>
              (validDelete a (tables d ! i) (snd ((xs @ (p, u) # ys) ! n)) \<longrightarrow>
                 snd (applyUpdates d a (xs @ (p, u) # ys)) ! n = Some (name (tables d ! i)) \<and>
                 rows (tables (fst (applyUpdates d a (xs @ (p, u) # ys))) ! i) (url a @ entry_path (snd ((xs @ (p, u) # ys) ! n))) = None) \<and>
              (\<forall>j<length (tables d). j \<noteq> i \<longrightarrow>
                 rows (tables (fst (applyUpdates d a (xs @ (p, u) # ys))) ! j) (url a @ entry_path (snd ((xs @ (p, u) # ys) ! n))) =
                   rows (tables d ! j) (url a @ entry_path (snd ((xs @ (p, u) # ys) ! n)))))" ..
  qed
  from e one have first: "\<exists>e. tryUpdate a u (tables d) = Inl e \<and>
            applyUpdate d a u = (d\<lparr>console := console d @ [failureLine a u e]\<rparr>, None)"
    by blast
  show ?thesis
    by (intro conjI first tabs res len pass log static stored)
qed

theorem per_record_error_contained_witness:
  "isl (tryUpdate alice
         \<lparr>entry_path = ''/posts/a.json'', entry_type = ''put'', entry_version = 1\<rparr>
         (tables fresh_db)) \<and>
   applyUpdate fresh_db alice
       \<lparr>entry_path = ''/posts/a.json'', entry_type = ''put'', entry_version = 1\<rparr> =
     (fresh_db\<lparr>console := [FailedToIndex ''dat://alice/posts/a.json'' ValidationError]\<rparr>, None) \<and>
   isOpen fresh_db \<and> idx fresh_db \<and>
   getInfo alice = Inr \<lparr>info_version = 5, info_isOwner = True\<rparr> \<and>
   indexedVersion fresh_db (url alice) < 5 \<and>
   scanArchiveHistoryForUpdates fresh_db alice (indexedVersion fresh_db (url alice) + 1) 6
     = Inr alice_updates \<and>
   snd (indexArchive fresh_db alice) = Returned \<and>
   indexedVersion (fst (indexArchive fresh_db alice)) (url alice) = 5 \<and>
   tables (fst (indexArchive fresh_db alice)) =
     tables (fst (applyUpdates fresh_db alice alice_updates)) \<and>
   console (fst (indexArchive fresh_db alice)) =
     [FailedToIndex ''dat://alice/posts/a.json'' ValidationError] \<and>
   failures alice (tables fresh_db) alice_updates =
     [FailedToIndex ''dat://alice/posts/a.json'' ValidationError] \<and>
   distinct (map (\<lambda>(q, v). entry_path v) alice_updates) \<and>
   firstMatch (tables fresh_db) ''/posts/b.json'' 0 \<and>
   validPut alice (tables fresh_db ! 0)
     \<lparr>entry_path = ''/posts/b.json'', entry_type = ''put'', entry_version = 5\<rparr>
     21 [(''title'', JStr ''hello'')] \<and>
   stamped alice ''/posts/b.json'' 21 [(''title'', JStr ''hello'')] = post_b \<and>
   snd (applyUpdates fresh_db alice alice_updates) ! 1 = Some ''posts'' \<and>
   rows (tables (fst (applyUpdates fresh_db alice alice_updates)) ! 0)
     ''dat://alice/posts/b.json'' = Some post_b \<and>
   rows (tables (fst (applyUpdates fresh_db alice alice_updates)) ! 0)
     ''dat://alice/posts/a.json'' = None \<and>
   isl (tryUpdate alice
         \<lparr>entry_path = ''/posts/a.json'', entry_type = ''put'', entry_version = 6\<rparr>
         (tables indexed_db)) \<and>
   distinct (map (\<lambda>(q, v). entry_path v) alice_cleanup) \<and>
   rows (tables indexed_db ! 0) ''dat://alice/posts/b.json'' = Some post_b \<and>
   firstMatch (tables indexed_db) ''/posts/b.json'' 0 \<and>
   validDelete alice (tables indexed_db ! 0)
     \<lparr>entry_path = ''/posts/b.json'', entry_type = ''del'', entry_version = 7\<rparr> \<and>
   snd (applyUpdates indexed_db alice alice_cleanup) ! 1 = Some ''posts'' \<and>
   rows (tables (fst (applyUpdates indexed_db alice alice_cleanup)) ! 0)
     ''dat://alice/posts/b.json'' = None"
proof -
  have f1: "isl (tryUpdate alice
         \<lparr>entry_path = ''/posts/a.json'', entry_type = ''put'', entry_version = 1\<rparr>
         (tables fresh_db))"
    by (simp add: tryUpdate_a)
  have u1: "[] @ (''/posts/a.json'',
         \<lparr>entry_path = ''/posts/a.json'', entry_type = ''put'', entry_version = 1\<rparr>) #
       [(''/posts/b.json'',
         \<lparr>entry_path = ''/posts/b.json'', entry_type = ''put'', entry_version = 5\<rparr>)] =
       alice_updates"
    by (simp add: alice_updates_def)
  note t1 = per_record_error_contained [OF f1, of "[]" "''/posts/a.json''"
        "[(''/posts/b.json'',
           \<lparr>entry_path = ''/posts/b.json'', entry_type = ''put'', entry_version = 5\<rparr>)]"
        "\<lparr>info_version = 5, info_isOwner = True\<rparr>", unfolded u1]
  have one: "applyUpdate fresh_db alice
       \<lparr>entry_path = ''/posts/a.json'', entry_type = ''put'', entry_version = 1\<rparr> =
     (fresh_db\<lparr>console := [FailedToIndex ''dat://alice/posts/a.json'' ValidationError]\<rparr>, None)"
    using t1 [THEN conjunct1] by (simp add: tryUpdate_a failureLine_def fresh_db_def)
  have sc: "scanArchiveHistoryForUpdates fresh_db alice
      (indexedVersion fresh_db (url alice) + 1) 6 = Inr alice_updates"
    by (simp add: alice_scan)
  have ph: "isOpen fresh_db \<and> idx fresh_db \<and>
      getInfo alice = Inr \<lparr>info_version = 5, info_isOwner = True\<rparr> \<and>
      indexedVersion fresh_db (url alice) < 5"
    by simp
  have fl: "failures alice (tables fresh_db) alice_updates =
     [FailedToIndex ''dat://alice/posts/a.json'' ValidationError]"
    by (simp add: failures_def alice_updates_def tryUpdate_a tryUpdate_b failureLine_def)
  have pass: "snd (indexArchive fresh_db alice) = Returned \<and>
      indexedVersion (fst (indexArchive fresh_db alice)) (url alice) = 5 \<and>
      tables (fst (indexArchive fresh_db alice)) =
        tables (fst (applyUpdates fresh_db alice alice_updates)) \<and>
      console (fst (indexArchive fresh_db alice)) =
        console (fst (applyUpdates fresh_db alice alice_updates)) \<and>
      distinct (map (\<lambda>(q, v). entry_path v) alice_updates)"
  proof -
    have iv: "info_version \<lparr>info_version = 5, info_isOwner = True\<rparr> = 5" by simp
    have hyp: "isOpen fresh_db \<and> idx fresh_db \<and>
        getInfo alice = Inr \<lparr>info_version = 5, info_isOwner = True\<rparr> \<and>
        indexedVersion fresh_db (url alice) < 5 \<and>
        scanArchiveHistoryForUpdates fresh_db alice (indexedVersion fresh_db (url alice) + 1)
          (5 + 1) = Inr alice_updates"
      using ph sc by simp
    from t1 [THEN conjunct2, THEN conjunct2, THEN conjunct2, THEN conjunct2, THEN conjunct1,
        unfolded iv, THEN mp, OF hyp]
    show ?thesis by blast
  qed
  have cons: "console (fst (applyUpdates fresh_db alice alice_updates)) =
      [FailedToIndex ''dat://alice/posts/a.json'' ValidationError]"
  proof -
    from t1 [THEN conjunct2, THEN conjunct2, THEN conjunct2, THEN conjunct2, THEN conjunct2,
        THEN conjunct1]
    obtain lines where c: "console (fst (applyUpdates fresh_db alice alice_updates)) =
        console fresh_db @ lines"
      and m: "mset lines = mset (failures alice (tables fresh_db) alice_updates)"
      by blast
    from m have "lines = [FailedToIndex ''dat://alice/posts/a.json'' ValidationError]"
      unfolding fl by simp
    with c show ?thesis by (simp add: fresh_db_def)
  qed
  from pass have d1: "distinct (map (\<lambda>(q, v). entry_path v) alice_updates)" by simp
  note s1 = t1 [THEN conjunct2, THEN conjunct2, THEN conjunct2, THEN conjunct2, THEN conjunct2,
      THEN conjunct2, THEN conjunct2, THEN mp, OF d1]
  have fm1: "firstMatch (tables fresh_db) ''/posts/b.json'' 0"
    by (simp add: firstMatch_def posts_table_def)
  have n1: "snd (alice_updates ! 1) =
      \<lparr>entry_path = ''/posts/b.json'', entry_type = ''put'', entry_version = 5\<rparr>"
    "(1::nat) < length alice_updates"
    by (simp_all add: alice_updates_def)
  have vp1: "validPut alice (tables fresh_db ! 0)
     \<lparr>entry_path = ''/posts/b.json'', entry_type = ''put'', entry_version = 5\<rparr>
     21 [(''title'', JStr ''hello'')]"
    by (simp add: validPut_def validated_def posts_table_def alice_files_def requireTitle_def
        get_prop_def objectRealm_def Object_prototype_def)
  have st1: "stamped alice ''/posts/b.json'' 21 [(''title'', JStr ''hello'')] = post_b"
    by (simp add: stamped_def post_b_def)
  have b1: "snd (applyUpdates fresh_db alice alice_updates) ! 1 = Some ''posts'' \<and>
      rows (tables (fst (applyUpdates fresh_db alice alice_updates)) ! 0)
        ''dat://alice/posts/b.json'' = Some post_b"
    using s1 [THEN conjunct2, rule_format, of 1 0, THEN conjunct1, rule_format,
        of 21 "[(''title'', JStr ''hello'')]"] n1 fm1 vp1 st1
    by (simp add: posts_table_def)
  have a1: "rows (tables (fst (applyUpdates fresh_db alice alice_updates)) ! 0)
        ''dat://alice/posts/a.json'' = None"
    using s1 [THEN conjunct1, rule_format, of 0] by (simp add: posts_table_def)
  have f2: "isl (tryUpdate alice
         \<lparr>entry_path = ''/posts/a.json'', entry_type = ''put'', entry_version = 6\<rparr>
         (tables indexed_db))"
    by (simp add: tryUpdate_def readAndIndexFile_try_def alice_files_def posts_indexed_def
        posts_table_def storeRecord_def requireTitle_def get_prop_def objectRealm_def
        Object_prototype_def)
  have u2: "[] @ (''/posts/a.json'',
         \<lparr>entry_path = ''/posts/a.json'', entry_type = ''put'', entry_version = 6\<rparr>) #
       [(''/posts/b.json'',
         \<lparr>entry_path = ''/posts/b.json'', entry_type = ''del'', entry_version = 7\<rparr>)] =
       alice_cleanup"
    by (simp add: alice_cleanup_def)
  note t2 = per_record_error_contained [OF f2, of "[]" "''/posts/a.json''"
        "[(''/posts/b.json'',
           \<lparr>entry_path = ''/posts/b.json'', entry_type = ''del'', entry_version = 7\<rparr>)]"
        "\<lparr>info_version = 7, info_isOwner = True\<rparr>", unfolded u2]
  have d2: "distinct (map (\<lambda>(q, v). entry_path v) alice_cleanup)"
    by (simp add: alice_cleanup_def)
  note s2 = t2 [THEN conjunct2, THEN conjunct2, THEN conjunct2, THEN conjunct2, THEN conjunct2,
      THEN conjunct2, THEN conjunct2, THEN mp, OF d2]
  have fm2: "firstMatch (tables indexed_db) ''/posts/b.json'' 0"
    by (simp add: firstMatch_def posts_indexed_def posts_table_def)
  have n2: "snd (alice_cleanup ! 1) =
      \<lparr>entry_path = ''/posts/b.json'', entry_type = ''del'', entry_version = 7\<rparr>"
    "(1::nat) < length alice_cleanup"
    by (simp_all add: alice_cleanup_def)
  have vd2: "validDelete alice (tables indexed_db ! 0)
     \<lparr>entry_path = ''/posts/b.json'', entry_type = ''del'', entry_version = 7\<rparr>"
    by (simp add: validDelete_def posts_indexed_def posts_table_def)
  have r2: "rows (tables indexed_db ! 0) ''dat://alice/posts/b.json'' = Some post_b"
    by (simp add: posts_indexed_def)
  have b2: "snd (applyUpdates indexed_db alice alice_cleanup) ! 1 = Some ''posts'' \<and>
      rows (tables (fst (applyUpdates indexed_db alice alice_cleanup)) ! 0)
        ''dat://alice/posts/b.json'' = None"
    using s2 [THEN conjunct2, rule_format, of 1 0, THEN conjunct2, THEN conjunct1] n2 fm2 vd2
    by (simp add: posts_indexed_def posts_table_def)
  from pass cons have pc: "console (fst (indexArchive fresh_db alice)) =
     [FailedToIndex ''dat://alice/posts/a.json'' ValidationError]" by simp
  show ?thesis
    by (intro conjI f1 one ph [THEN conjunct1] ph [THEN conjunct2, THEN conjunct1]
        ph [THEN conjunct2, THEN conjunct2, THEN conjunct1]
        ph [THEN conjunct2, THEN conjunct2, THEN conjunct2] sc
        pass [THEN conjunct1] pass [THEN conjunct2, THEN conjunct1]
        pass [THEN conjunct2, THEN conjunct2, THEN conjunct1] pc fl d1 fm1 vp1 st1
        b1 [THEN conjunct1] b1 [THEN conjunct2] a1 f2 d2 r2 fm2 vd2
        b2 [THEN conjunct1] b2 [THEN conjunct2])
qed

subsection \<open>Applying a batch twice\<close>

lemma storeRecord_stamps:
  assumes "storeRecord a p r t = Inr t'"
  shows "\<exists>i ps. rows t' = (rows t)(url a @ p \<mapsto> JObj i ps) \<and>
           lookup ps ''_url'' = JStr (url a @ p) \<and> lookup ps ''_origin'' = JStr (url a)"
proof -
  from assms obtain r1 r2 r3 where
    s1: "set_prop r1 ''_url'' (JStr (url a @ p)) = Inr r2"
    and s2: "set_prop r2 ''_origin'' (JStr (url a)) = Inr r3"
    and put: "IDB_put t r3 = Inr t'"
    unfolding storeRecord_def andThen_Inr_iff by blast
  from put obtain k where k: "recordKey r3 = Some k" and t': "t' = t\<lparr>rows := (rows t)(k \<mapsto> r3)\<rparr>"
    by (auto simp: IDB_put_def split: option.splits if_splits)
  from stamped_key [OF s1 s2 k] have kk: "k = url a @ p" .
  from k obtain i ps where ps: "r3 = JObj i ps"
    by (cases r3) (simp_all add: recordKey_def)
  with s2 obtain ps2 where "r2 = JObj i ps2" and p3: "ps = upsert ps2 ''_origin'' (JStr (url a))"
    by (cases r2) auto
  with s1 obtain ps1 where "r1 = JObj i ps1"
    and p2: "ps2 = upsert ps1 ''_url'' (JStr (url a @ p))"
    by (cases r1) auto
  have "lookup ps ''_url'' = JStr (url a @ p)" "lookup ps ''_origin'' = JStr (url a)"
    by (simp_all add: p3 p2 lookup_upsert)
  with t' kk ps show ?thesis by (intro exI [of _ i] exI [of _ ps]) simp
qed

text \<open>
  C8. For the collapsed update set of any window (of any archive, scanned under any
  patterns), applying it to a database and then applying it again leaves every table,
  hence every stored record with its key, its content and its provenance fields, as the
  first application left it, and gives the same results. The paths need not be matched
  by exactly one table: the first matching table is the same both times.
\<close>

theorem applyUpdates_idempotent:
  assumes "scanArchiveHistoryForUpdates d0 a start stop = Inr updates"
  shows "tables (fst (applyUpdates (fst (applyUpdates d a updates)) a updates)) =
           tables (fst (applyUpdates d a updates)) \<and>
         snd (applyUpdates (fst (applyUpdates d a updates)) a updates) =
           snd (applyUpdates d a updates)"
proof -
  have dist: "distinct (map (\<lambda>(p, u). entry_path u) updates)"
    using assms by (rule scan_distinct_paths)
  have "tables (fst (applyUpdates (fst (applyUpdates d a updates)) a updates)) =
           tables (fst (applyUpdates d a updates))"
    unfolding applyUpdates_tables by (rule run_idem [OF dist])
  moreover have "snd (applyUpdates (fst (applyUpdates d a updates)) a updates) =
           snd (applyUpdates d a updates)"
  proof -
    have "\<And>v. resultOf a v (tables (fst (applyUpdates d a updates))) = resultOf a v (tables d)"
      by (rule resultOf_static) (simp add: applyUpdates_tables run_static)
    then show ?thesis by (simp add: applyUpdates_results)
  qed
  ultimately show ?thesis by simp
qed

theorem applyUpdates_idempotent_witness:
  "scanArchiveHistoryForUpdates fresh_db alice 1 6 = Inr alice_updates \<and>
   tables (fst (applyUpdates fresh_db alice alice_updates)) = [posts_indexed] \<and>
   rows posts_indexed ''dat://alice/posts/b.json'' =
     Some (JObj 21 [(''title'', JStr ''hello''), (''_url'', JStr ''dat://alice/posts/b.json''),
                 (''_origin'', JStr ''dat://alice'')]) \<and>
   tables (fst (applyUpdates (fst (applyUpdates fresh_db alice alice_updates)) alice alice_updates)) =
     [posts_indexed] \<and>
   snd (applyUpdates (fst (applyUpdates fresh_db alice alice_updates)) alice alice_updates) =
     [None, Some ''posts'']"
proof -
  have s: "scanArchiveHistoryForUpdates fresh_db alice 1 6 = Inr alice_updates"
    by (simp add: alice_scan)
  show ?thesis
    using applyUpdates_idempotent [OF s, of fresh_db] s
    by (simp add: alice_apply posts_indexed_def post_b_def)
qed



subsection \<open>watchArchive and unwatchArchive\<close>

lemma watchArchive_refuses:
  assumes "fileEvents a \<noteq> None"
  shows "watchArchive_enter a = (a, Refused)" and "watchArchive a = a"
  using assms by (simp_all add: watchArchive_enter_def watchArchive_def)

text \<open>
  Calls that do not overlap keep the handle at one subscription at most: a call of
  \<^verbatim>\<open>watchArchive\<close> that runs to its end before anything else starts, and a call
  of \<^verbatim>\<open>unwatchArchive\<close>.
\<close>

lemma watchArchive_keeps_one:
  assumes "oneSubscription a"
  shows "oneSubscription (watchArchive a)" and "length (openStreams (watchArchive a)) = 1"
  using assms
  by (auto simp: oneSubscription_def watchArchive_def watchArchive_enter_def
      watchArchive_resume_def subscribe_def split: option.splits)

lemma unwatchArchive_keeps_one:
  assumes "oneSubscription a"
  shows "oneSubscription (unwatchArchive a)" and "openStreams (unwatchArchive a) = []"
    and "fileEvents (unwatchArchive a) = None"
  using assms
  by (auto simp: oneSubscription_def unwatchArchive_def split: option.splits)

text \<open>
  C10. The claim: a handle holds at most one active file-activity subscription at any
  time. The check of \<^verbatim>\<open>fileEvents\<close> and the subscription are separated by
  \<^verbatim>\<open>await archive._loadPromise\<close>. A second call that starts while the first is
  suspended there passes the check as well, and both subscribe: two streams are open,
  \<^verbatim>\<open>fileEvents\<close> points to the second, and \<^verbatim>\<open>unwatchArchive\<close> closes that
  one only.
\<close>

theorem watchArchive_overlapping_calls:
  "oneSubscription alice \<and> fileEvents alice = None \<and> loadPromise alice \<and>
   snd (watchArchive_enter alice) = Suspended \<and>
   snd (watchArchive_enter (fst (watchArchive_enter alice))) = Suspended \<and>
   openStreams alice_watched_twice = [0, 1] \<and>
   fileEvents alice_watched_twice = Some 1 \<and>
   \<not> oneSubscription alice_watched_twice \<and>
   openStreams (unwatchArchive alice_watched_twice) = [0] \<and>
   fileEvents (unwatchArchive alice_watched_twice) = None"
  by (simp add: alice_watched_twice_def watchArchive_enter_def watchArchive_resume_def
      subscribe_def unwatchArchive_def oneSubscription_def alice_def)


subsection \<open>The order within a batch\<close>


text \<open>
  The order in which the callbacks of a batch reach the store does not matter: each
  has one store operation, and batches with distinct paths that are permutations of
  each other leave the same tables.
\<close>

lemma applyUpdates_order_irrelevant:
  assumes "distinct (map (\<lambda>(p, u). entry_path u) ups)" and "mset ups = mset ups'"
  shows "tables (fst (applyUpdates d a ups')) = tables (fst (applyUpdates d a ups))"
proof -
  let ?f = "\<lambda>(p :: string, u) ts. tablesAfter a u ts"
  have comm: "\<And>x y. x \<in> set ups \<Longrightarrow> y \<in> set ups \<Longrightarrow> ?f x \<circ> ?f y = ?f y \<circ> ?f x"
  proof -
    fix x y assume x: "x \<in> set ups" and y: "y \<in> set ups"
    obtain p u where xu: "x = (p, u)" by (cases x)
    obtain q v where yv: "y = (q, v)" by (cases y)
    show "?f x \<circ> ?f y = ?f y \<circ> ?f x"
    proof (cases "x = y")
      case True
      then show ?thesis by simp
    next
      case False
      have "entry_path u \<noteq> entry_path v"
      proof
        assume e: "entry_path u = entry_path v"
        have "inj_on (\<lambda>(p, u). entry_path u) (set ups)"
          using assms(1) by (simp add: distinct_map)
        from inj_onD [OF this _ x y] e xu yv False show False by simp
      qed
      then show ?thesis
        by (simp add: xu yv fun_eq_iff tablesAfter_comm)
    qed
  qed
  have "fold ?f ups = fold ?f ups'"
    using comm assms(2) by (rule fold_multiset_equiv)
  moreover have "\<And>xs ts. foldl (\<lambda>ts (p, u). tablesAfter a u ts) ts xs = fold ?f xs ts"
  proof -
    fix xs :: "(string \<times> update) list" and ts
    show "foldl (\<lambda>ts (p, u). tablesAfter a u ts) ts xs = fold ?f xs ts"
      by (induction xs arbitrary: ts) (auto split: prod.splits)
  qed
  ultimately show ?thesis by (simp add: applyUpdates_tables)
qed


end
